theory Spec2Isabelle
  imports Complex_Main "HOL-Library.Sublist" "HOL-Library.AList"
begin

chapter \<open>The model\<close>

section \<open>Strings and name normalization\<close>

text \<open>
  A JavaScript string is modelled as a \<^typ>\<open>string\<close>: a list of 8-bit characters, read as
  the code units U+0000 to U+00FF (Latin-1). Strings with code units beyond U+00FF are
  outside the model.

  The loader's \<^verbatim>\<open>normalizeServiceName\<close> is
  \<^verbatim>\<open>str.replace(/([A-Z])/g, '-$1').replace(/[-_\s]+/g, '-').toLowerCase()\<close>:
  three passes, modelled one by one.
\<close>

definition isUpperAZ :: "char \<Rightarrow> bool" where
  \<comment> \<open>the character class \<^verbatim>\<open>[A-Z]\<close>\<close>
  "isUpperAZ c \<longleftrightarrow> 65 \<le> (of_char c :: nat) \<and> (of_char c :: nat) \<le> 90"

definition isSeparator :: "char \<Rightarrow> bool" where
  \<comment> \<open>the character class \<^verbatim>\<open>[-_\s]\<close>: dash 45, underscore 95, and the white space of
      \<^verbatim>\<open>\s\<close> below U+0100: TAB, LF, VT, FF, CR, space, no-break space\<close>
  "isSeparator c \<longleftrightarrow> (of_char c :: nat) \<in> {45, 95, 9, 10, 11, 12, 13, 32, 160}"

fun dashCapitals :: "string \<Rightarrow> string" where
  \<comment> \<open>\<^verbatim>\<open>replace(/([A-Z])/g, '-$1')\<close>: a dash before every capital letter\<close>
  "dashCapitals [] = []"
| "dashCapitals (c # cs) =
     (if isUpperAZ c then CHR ''-'' # c # dashCapitals cs else c # dashCapitals cs)"

function collapseSeparators :: "string \<Rightarrow> string" where
  \<comment> \<open>\<^verbatim>\<open>replace(/[-_\s]+/g, '-')\<close>: every maximal run of separators becomes one dash\<close>
  "collapseSeparators [] = []"
| "collapseSeparators (c # cs) =
     (if isSeparator c then CHR ''-'' # collapseSeparators (dropWhile isSeparator cs)
      else c # collapseSeparators cs)"
  by pat_completeness auto
termination
  by (relation "measure length") (auto simp: less_Suc_eq_le length_dropWhile_le)

definition toLowerChar :: "char \<Rightarrow> char" where
  \<comment> \<open>lower-casing below U+0100: A-Z, and the capital letters U+00C0 to U+00DE
      without the multiplication sign U+00D7, move up by 32\<close>
  "toLowerChar c = (let n = (of_char c :: nat) in
     if (65 \<le> n \<and> n \<le> 90) \<or> (192 \<le> n \<and> n \<le> 222 \<and> n \<noteq> 215) then char_of (n + 32) else c)"

definition toLowerCase :: "string \<Rightarrow> string" where
  "toLowerCase s = map toLowerChar s"

definition normalizeServiceName :: "string \<Rightarrow> string" where
  "normalizeServiceName str = toLowerCase (collapseSeparators (dashCapitals str))"

definition normalizeServiceNames :: "string list \<Rightarrow> string list" where
  "normalizeServiceNames names = map normalizeServiceName names"

text \<open>
  A string is in separator normal form when each of its separators is a dash that is not
  followed by another separator. This is what the second pass establishes.
\<close>

fun sepNormal :: "string \<Rightarrow> bool" where
  "sepNormal [] = True"
| "sepNormal (c # cs) =
     (if isSeparator c
      then c = CHR ''-'' \<and> (case cs of [] \<Rightarrow> True | d # _ \<Rightarrow> \<not> isSeparator d) \<and> sepNormal cs
      else sepNormal cs)"

section \<open>JavaScript values and objects\<close>

text \<open>
  Numbers are \<^verbatim>\<open>NaN\<close>, the finite values (as rationals; every finite double is one; the two
  zeros are not told apart, as the code never does) and the two infinities.
  Objects other than arrays are opaque references: the code only tests them for truth
  and passes them on. \<open>JBuiltin k\<close> is the value of the property \<open>k\<close> that every plain
  object inherits from \<^verbatim>\<open>Object.prototype\<close>.
\<close>

datatype jsnum = NaN | Finite rat | PosInfinity | NegInfinity

datatype jsval =
    JUndefined
  | JNull
  | JBool bool
  | JNum jsnum
  | JStr string
  | JArr "jsval list"
  | JObj nat
  | JBuiltin string

text \<open>
  A thrown value is an \<^verbatim>\<open>Error\<close> with its message, or the \<^verbatim>\<open>TypeError\<close> of the runtime (the
  string names the expression that failed; the runtime's wording is not modelled).
  Errors are objects, hence always truthy where the code tests \<^verbatim>\<open>if (err)\<close>.
\<close>

datatype error = Error string | TypeError string

fun truthy :: "jsval \<Rightarrow> bool" where
  "truthy JUndefined = False"
| "truthy JNull = False"
| "truthy (JBool b) = b"
| "truthy (JNum n) = (n \<noteq> NaN \<and> n \<noteq> Finite 0)"
| "truthy (JStr s) = (s \<noteq> [])"
| "truthy (JArr xs) = True"
| "truthy (JObj r) = True"
| "truthy (JBuiltin k) = True"

text \<open>
  A plain object (\<^verbatim>\<open>{}\<close>) is the list of its own properties in insertion order.
  Reading a key that is not an own property falls through to \<^verbatim>\<open>Object.prototype\<close>:
  \<^verbatim>\<open>({})['constructor']\<close> is a function, not \<^verbatim>\<open>undefined\<close>.
  Writing (\<^const>\<open>AList.update\<close>) replaces the value in place or appends the key.
  The loader writes canonical names and names with a dot only, never \<^verbatim>\<open>__proto__\<close>.
\<close>

type_synonym 'a jsobject = "(string \<times> 'a) list"

definition objectPrototype :: "string list" where
  "objectPrototype = [''constructor'', ''__defineGetter__'', ''__defineSetter__'',
     ''hasOwnProperty'', ''__lookupGetter__'', ''__lookupSetter__'', ''isPrototypeOf'',
     ''propertyIsEnumerable'', ''toString'', ''valueOf'', ''__proto__'', ''toLocaleString'']"

datatype 'a lookup = Own 'a | Inherited string | Missing

definition js_get :: "'a jsobject \<Rightarrow> string \<Rightarrow> 'a lookup" where
  "js_get obj k = (case map_of obj k of
       Some v \<Rightarrow> Own v
     | None \<Rightarrow> if k \<in> set objectPrototype then Inherited k else Missing)"

fun js_value :: "jsval lookup \<Rightarrow> jsval" where
  "js_value (Own v) = v"
| "js_value (Inherited k) = JBuiltin k"
| "js_value Missing = JUndefined"

fun present :: "'a lookup \<Rightarrow> bool" where
  \<comment> \<open>the truth value of a property whose own values are objects or arrays\<close>
  "present (Own v) = True"
| "present (Inherited k) = True"
| "present Missing = False"

definition builtinText :: "string \<Rightarrow> string" where
  \<comment> \<open>what an inherited property prints as when it is used as a string\<close>
  "builtinText k = (if k = ''__proto__'' then ''[object Object]''
     else ''function '' @ (if k = ''constructor'' then ''Object'' else k) @ ''() { [native code] }'')"

text \<open>Decimal digits, white space, and the order in which \<^verbatim>\<open>for ... in\<close> visits keys:
  array indices first, ascending, then the other keys in insertion order.\<close>

definition isWhiteSpace :: "char \<Rightarrow> bool" where
  "isWhiteSpace c \<longleftrightarrow> (of_char c :: nat) \<in> {9, 10, 11, 12, 13, 32, 160}"

definition isDigit :: "char \<Rightarrow> bool" where
  "isDigit c \<longleftrightarrow> 48 \<le> (of_char c :: nat) \<and> (of_char c :: nat) \<le> 57"

definition digitsValue :: "string \<Rightarrow> nat" where
  "digitsValue ds = foldl (\<lambda>a c. 10 * a + (of_char c - 48)) 0 ds"

definition isArrayIndex :: "string \<Rightarrow> bool" where
  "isArrayIndex k \<longleftrightarrow> k \<noteq> [] \<and> list_all isDigit k \<and> (k = ''0'' \<or> take 1 k \<noteq> ''0'') \<and>
                      digitsValue k < 2 ^ 32 - 1"

definition forInKeys :: "'a jsobject \<Rightarrow> string list" where
  "forInKeys obj = sort_key digitsValue (filter isArrayIndex (map fst obj)) @
                   filter (\<lambda>k. \<not> isArrayIndex k) (map fst obj)"

text \<open>
  \<^verbatim>\<open>Number(v)\<close>. The conversion is modelled exactly where its result is an integer the
  claims can name: white space is trimmed, the empty string is 0, and an optionally signed
  run of decimal digits of magnitude up to \<open>2^53\<close> is that integer. Everywhere else
  (fractions, exponents, hexadecimal, \<^verbatim>\<open>Infinity\<close>, longer digit runs, text that is not a
  number, arrays, objects) the result is what the parameter \<open>other\<close> says: the model takes
  the runtime's answer there as given.
\<close>

definition trim :: "string \<Rightarrow> string" where
  "trim s = rev (dropWhile isWhiteSpace (rev (dropWhile isWhiteSpace s)))"

definition integerLiteral :: "string \<Rightarrow> int option" where
  "integerLiteral s =
     (let (neg, ds) = (case s of
                         [] \<Rightarrow> (False, [])
                       | c # cs \<Rightarrow> if c = CHR ''-'' then (True, cs)
                                  else if c = CHR ''+'' then (False, cs) else (False, s))
      in if ds \<noteq> [] \<and> list_all isDigit ds
         then Some (if neg then - int (digitsValue ds) else int (digitsValue ds))
         else None)"

definition Number :: "(jsval \<Rightarrow> jsnum) \<Rightarrow> jsval \<Rightarrow> jsnum" where
  "Number other v = (case v of
       JNum n \<Rightarrow> n
     | JUndefined \<Rightarrow> NaN
     | JNull \<Rightarrow> Finite 0
     | JBool b \<Rightarrow> Finite (if b then 1 else 0)
     | JStr s \<Rightarrow>
         (let t = trim s in
          if t = [] then Finite 0
          else case integerLiteral t of
                 Some n \<Rightarrow> if \<bar>n\<bar> \<le> 2 ^ 53 then Finite (of_int n) else other v
               | None \<Rightarrow> other v)
     | _ \<Rightarrow> other v)"

text \<open>\<^verbatim>\<open>s.split(sep)\<close> for a string separator: the pieces between the occurrences of \<open>sep\<close>,
  found from the left; the empty separator splits into characters.\<close>

function splitOn :: "string \<Rightarrow> string \<Rightarrow> string \<Rightarrow> string list" where
  "splitOn sep acc [] = [rev acc]"
| "splitOn sep acc (c # cs) =
     (if sep \<noteq> [] \<and> take (length sep) (c # cs) = sep
      then rev acc # splitOn sep [] (drop (length sep) (c # cs))
      else splitOn sep (c # acc) cs)"
  by pat_completeness auto
termination
  by (relation "measure (\<lambda>(sep, acc, s). length s)") auto

definition js_split :: "string \<Rightarrow> string \<Rightarrow> string list" where
  "js_split sep s = (if sep = [] then map (\<lambda>c. [c]) s else splitOn sep [] s)"

section \<open>The schema utility: casting a raw parameter value\<close>

text \<open>
  Of a schema the code reads \<^verbatim>\<open>type\<close>, \<^verbatim>\<open>collectionFormat\<close> and \<^verbatim>\<open>items\<close>; a field that is
  absent is \<open>None\<close>.
\<close>

datatype schema =
  Schema (stype: "string option") (collectionFormat: "string option") (items: "schema option")

definition splitChar :: "string jsobject" where
  "splitChar = [(''csv'', '',''), (''ssv'', '' ''), (''tsv'', [CHR 0x09]), (''pipes'', ''|'')]"

text \<open>
  \<^verbatim>\<open>parseArray(str, format)\<close>. The table is a plain object, so a format that names no own
  key reads \<^verbatim>\<open>undefined\<close> (and \<^verbatim>\<open>split(undefined)\<close> is the one-element array) unless it names
  an inherited property. A value without a \<^verbatim>\<open>split\<close> method raises.
\<close>

definition parseArray :: "jsval \<Rightarrow> string \<Rightarrow> error + jsval list" where
  "parseArray str format =
     (if format = ''multi'' then Inr (case str of JArr xs \<Rightarrow> xs | _ \<Rightarrow> [str])
      else case str of
             JStr s \<Rightarrow> Inr (map JStr (case js_get splitChar format of
                                         Own sep \<Rightarrow> js_split sep s
                                       | Inherited k \<Rightarrow> js_split (builtinText k) s
                                       | Missing \<Rightarrow> [s]))
           | _ \<Rightarrow> Inl (TypeError ''str.split is not a function''))"

text \<open>
  \<^verbatim>\<open>castValueFromString(schema, value)\<close>: the three \<^verbatim>\<open>if\<close> blocks in the order of the source.
  The loop over the array is \<open>castElements\<close>; with elements to cast and no \<^verbatim>\<open>items\<close> schema the
  recursive call reads \<^verbatim>\<open>type\<close> of \<^verbatim>\<open>undefined\<close> and raises. The source updates the array in
  place; the model returns the new array.
\<close>

fun castValueFromString :: "(jsval \<Rightarrow> jsnum) \<Rightarrow> schema \<Rightarrow> jsval \<Rightarrow> error + jsval"
  and castElements :: "(jsval \<Rightarrow> jsnum) \<Rightarrow> schema option \<Rightarrow> jsval list \<Rightarrow> error + jsval list"
where
  "castValueFromString other (Schema t cf its) orig =
     (let isNumber = (t = Some ''number'' \<or> t = Some ''integer'');
          n = Number other orig
      in if isNumber \<and> n = NaN then Inr orig
         else
           let v1 = (if isNumber then JNum n else orig);
               v2 = (if t = Some ''boolean''
                     then (if v1 = JStr ''true'' then JBool True
                           else if v1 = JStr ''false'' then JBool False else v1)
                     else v1)
           in if t = Some ''array''
              then
                (let format = (case cf of None \<Rightarrow> ''csv'' | Some f \<Rightarrow> if f = [] then ''csv'' else f)
                 in case (case v2 of JArr xs \<Rightarrow> Inr xs | _ \<Rightarrow> parseArray v2 format) of
                      Inl e \<Rightarrow> Inl e
                    | Inr xs \<Rightarrow> (case castElements other its xs of
                                   Inl e \<Rightarrow> Inl e | Inr ys \<Rightarrow> Inr (JArr ys)))
              else Inr v2)"
| "castElements other its [] = Inr []"
| "castElements other None (x # xs) = Inl (TypeError ''schema.type of undefined'')"
| "castElements other (Some it) (x # xs) =
     (case castValueFromString other it x of
        Inl e \<Rightarrow> Inl e
      | Inr y \<Rightarrow> (case castElements other (Some it) xs of
                    Inl e \<Rightarrow> Inl e | Inr ys \<Rightarrow> Inr (y # ys)))"

section \<open>The loader\<close>

subsection \<open>Modules and the registry\<close>

text \<open>
  Of a loaded module the loader uses: its identity as an object (\<open>oid\<close>), the parameter
  names of its \<^verbatim>\<open>init\<close> as \<^verbatim>\<open>di.getParamNames\<close> returns them, whether \<^verbatim>\<open>di.hasCallback\<close>
  finds a callback parameter, what calling \<^verbatim>\<open>init\<close> does, and the optional
  \<^verbatim>\<open>getDependencies\<close> hook. The code of the \<^verbatim>\<open>di\<close> helper is not available, so its two
  results are fields of the module.

  A call of \<^verbatim>\<open>init\<close> returns, throws, or - when it was given a callback - invokes the
  callback before it returns (\<open>CallsBack\<close>) or at a later tick (\<open>Defers\<close>), once, with an
  error or without. An \<^verbatim>\<open>init\<close> that returns without ever invoking its callback is \<open>Returns\<close>.
\<close>

datatype init_result = Returns | Throws error | CallsBack "error option" | Defers nat "error option"

record jsmodule =
  oid :: nat
  paramNames :: "string list"
  hasCallback :: bool
  initFn :: "jsval list \<Rightarrow> init_result"
  getDependencies :: "(jsval \<Rightarrow> error + string list) option"

text \<open>The four maps that \<^verbatim>\<open>createLoader\<close> closes over.\<close>

record loader =
  moduleMap :: "jsmodule jsobject"
  dependencyMap :: "string list jsobject"
  injectedMap :: "jsval jsobject"
  consumerMap :: "jsmodule jsobject"

definition createLoader :: loader where
  "createLoader = \<lparr>moduleMap = [], dependencyMap = [], injectedMap = [], consumerMap = []\<rparr>"

text \<open>
  Two collaborators are parameters of the model, as their code is not available:
  \<^verbatim>\<open>subRequire(id, parentId)\<close>, which returns the module or throws an \<^verbatim>\<open>Error\<close> (\<open>Inl\<close> its
  message), and the dependency calculator, which receives the nodes in the order of the
  \<^verbatim>\<open>addNode\<close> calls and returns the groups or throws. Calls that reach the external loader
  are recorded.
\<close>

type_synonym subRequire = "string \<Rightarrow> string \<Rightarrow> string + jsmodule"

type_synonym dependencyCalc = "(string \<times> string list) list \<Rightarrow> error + string list list"

datatype extcall = Require string string | Unload string

subsection \<open>Registration\<close>

definition inject :: "loader \<Rightarrow> string \<Rightarrow> jsval \<Rightarrow> string list option \<Rightarrow> loader" where
  "inject L ident obj deps =
     (let normId = normalizeServiceName ident;
          L1 = L\<lparr>injectedMap := AList.update normId obj (injectedMap L)\<rparr>
      in case deps of
           Some ds \<Rightarrow> L1\<lparr>dependencyMap := AList.update normId (normalizeServiceNames ds)
                                              (dependencyMap L1)\<rparr>
         | None \<Rightarrow> L1)"

text \<open>
  \<^verbatim>\<open>loadServices\<close> and \<^verbatim>\<open>loadConsumers\<close> take what the directory listing and the \<^verbatim>\<open>require\<close>
  calls produce for the \<^verbatim>\<open>.js\<close> files: the modules, each with its \<^verbatim>\<open>__id\<close> (services) or its
  file name (consumers, where \<^verbatim>\<open>file.slice(0, -3)\<close> drops the extension).
\<close>

fun loadServices :: "loader \<Rightarrow> (string \<times> jsmodule) list \<Rightarrow> loader" where
  "loadServices L [] = L"
| "loadServices L ((modId, m) # files) =
     (let normId = normalizeServiceName modId
      in loadServices
           (L\<lparr>moduleMap := AList.update normId m (moduleMap L),
              dependencyMap := AList.update normId (normalizeServiceNames (paramNames m))
                                 (dependencyMap L)\<rparr>)
           files)"

fun loadConsumers :: "loader \<Rightarrow> (string \<times> jsmodule) list \<Rightarrow> string \<Rightarrow> loader" where
  "loadConsumers L [] pfx = L"
| "loadConsumers L ((file, m) # files) pfx =
     (let modId = normalizeServiceName (take (length file - 3) file)
      in loadConsumers
           (L\<lparr>consumerMap := AList.update (pfx @ ''.'' @ modId) m (consumerMap L),
              dependencyMap := AList.update (pfx @ ''.'' @ modId)
                                 (normalizeServiceNames (paramNames m)) (dependencyMap L)\<rparr>)
           files pfx)"

definition get :: "loader \<Rightarrow> string \<Rightarrow> jsval" where
  \<comment> \<open>\<^verbatim>\<open>return moduleMap[id]\<close>\<close>
  "get L ident = (case js_get (moduleMap L) ident of
                    Own m \<Rightarrow> JObj (oid m)
                  | Inherited k \<Rightarrow> JBuiltin k
                  | Missing \<Rightarrow> JUndefined)"

definition unload :: "loader \<Rightarrow> string \<Rightarrow> loader \<times> extcall list" where
  \<comment> \<open>\<^verbatim>\<open>subRequire.unload(id)\<close>: the registry after the call, and the calls made\<close>
  "unload L ident = (L, [Unload ident])"

subsection \<open>Fetching unmet dependencies\<close>

definition loadExternalModule :: "subRequire \<Rightarrow> string \<Rightarrow> string \<Rightarrow> loader \<Rightarrow> string + loader" where
  "loadExternalModule sr parentId ident L =
     (case sr ident parentId of
        Inl msg \<Rightarrow> Inl msg
      | Inr m \<Rightarrow> Inr (L\<lparr>moduleMap := AList.update ident m (moduleMap L),
                        dependencyMap := AList.update ident (normalizeServiceNames (paramNames m))
                                           (dependencyMap L)\<rparr>))"

text \<open>
  One pass of \<^verbatim>\<open>fetchUnmetDependencies\<close> is the \<^verbatim>\<open>for ... in\<close> loop with the \<^verbatim>\<open>forEach\<close> inside.
  The loop visits the keys the map had when it started (a key added meanwhile is not
  visited, a key that is gone is skipped) and reads the maps as they are at each step.
  A failed load leaves the loop with the new \<^verbatim>\<open>Error\<close>.
\<close>

record fetching =
  ldr :: loader
  calls :: "extcall list"
  runAgain :: bool

fun forEachDep :: "subRequire \<Rightarrow> string \<Rightarrow> string list \<Rightarrow> fetching \<Rightarrow> (error \<times> fetching) + fetching" where
  "forEachDep sr ident [] F = Inr F"
| "forEachDep sr ident (depId # rest) F =
     (if \<not> present (js_get (dependencyMap (ldr F)) depId) \<and>
         \<not> truthy (js_value (js_get (injectedMap (ldr F)) depId))
      then (case loadExternalModule sr ident depId (ldr F) of
              Inl msg \<Rightarrow>
                Inl (Error (''Error loading dependency '' @ depId @ '' for '' @ ident @ '': '' @ msg),
                     F\<lparr>calls := calls F @ [Require depId ident]\<rparr>)
            | Inr L' \<Rightarrow>
                forEachDep sr ident rest
                  (F\<lparr>ldr := L', calls := calls F @ [Require depId ident], runAgain := True\<rparr>))
      else forEachDep sr ident rest F)"

fun forInDependencyMap :: "subRequire \<Rightarrow> string list \<Rightarrow> fetching \<Rightarrow> (error \<times> fetching) + fetching" where
  "forInDependencyMap sr [] F = Inr F"
| "forInDependencyMap sr (ident # ids) F =
     (case js_get (dependencyMap (ldr F)) ident of
        Own deps \<Rightarrow> (case forEachDep sr ident deps F of
                       Inl x \<Rightarrow> Inl x
                     | Inr F' \<Rightarrow> forInDependencyMap sr ids F')
      | _ \<Rightarrow> forInDependencyMap sr ids F)"

text \<open>
  The function calls itself as long as a pass loaded something. With an external loader
  that keeps producing modules with new dependencies this never ends, so the model counts
  passes: \<open>OutOfFuel\<close> is a run that needs more passes than \<open>fuel\<close>. The calls made so far
  are an argument, to carry them through the recursion.
\<close>

datatype fetched =
    Resolved loader "extcall list"
  | LoadFailed error loader "extcall list"
  | OutOfFuel loader "extcall list"

fun fetchUnmetDependencies :: "nat \<Rightarrow> subRequire \<Rightarrow> loader \<Rightarrow> extcall list \<Rightarrow> fetched" where
  "fetchUnmetDependencies 0 sr L made = OutOfFuel L made"
| "fetchUnmetDependencies (Suc fuel) sr L made =
     (case forInDependencyMap sr (forInKeys (dependencyMap L))
             \<lparr>ldr = L, calls = made, runAgain = False\<rparr> of
        Inl (e, F) \<Rightarrow> LoadFailed e (ldr F) (calls F)
      | Inr F \<Rightarrow> if runAgain F then fetchUnmetDependencies fuel sr (ldr F) (calls F)
                 else Resolved (ldr F) (calls F))"

subsection \<open>The dependency groups\<close>

fun unique :: "'a list \<Rightarrow> 'a list" where
  \<comment> \<open>\<^verbatim>\<open>_.unique\<close>: the first occurrence of each element\<close>
  "unique [] = []"
| "unique (x # xs) = x # unique (filter (\<lambda>y. y \<noteq> x) xs)"

fun addNodes :: "loader \<Rightarrow> string list \<Rightarrow> error + (string \<times> string list) list" where
  "addNodes L [] = Inr []"
| "addNodes L (ident # ids) =
     (let static = (case js_get (dependencyMap L) ident of Own deps \<Rightarrow> deps | _ \<Rightarrow> []);
          hook = (case js_get (moduleMap L) ident of Own m \<Rightarrow> getDependencies m | _ \<Rightarrow> None)
      in case (case hook of
                 None \<Rightarrow> Inr (ident, static)
               | Some f \<Rightarrow> (case f (js_value (js_get (injectedMap L) ''service-loader'')) of
                              Inl e \<Rightarrow> Inl e
                            | Inr names \<Rightarrow> Inr (ident, unique (normalizeServiceNames names @ static)))) of
           Inl e \<Rightarrow> Inl e
         | Inr node \<Rightarrow> (case addNodes L ids of Inl e \<Rightarrow> Inl e | Inr nodes \<Rightarrow> Inr (node # nodes)))"

definition calculateDependencyTree ::
    "dependencyCalc \<Rightarrow> loader \<Rightarrow> string list option \<Rightarrow> error + string list list" where
  "calculateDependencyTree depCalc L initList =
     (case initList of
        Some ids \<Rightarrow> Inr (map (\<lambda>ident. [ident]) ids)
      | None \<Rightarrow>
          (case addNodes L (forInKeys (dependencyMap L)) of
             Inl e \<Rightarrow> Inl e
           | Inr nodes \<Rightarrow>
               depCalc (nodes @ map (\<lambda>ident. (ident, []))
                                  (filter (\<lambda>ident. \<not> present (js_get (dependencyMap L) ident))
                                     (forInKeys (injectedMap L))))))"

subsection \<open>Initialization\<close>

text \<open>
  What a run of \<^verbatim>\<open>init\<close> does is observed as a list of events: \<open>Init x args\<close> when the
  \<^verbatim>\<open>init\<close> of module \<open>x\<close> is applied to \<open>args\<close>, \<open>NodeDone x err\<close> when the callback of node
  \<open>x\<close> is invoked (\<^verbatim>\<open>serviceCallback\<close>), and \<open>Callback err\<close> when the callback given to
  \<^verbatim>\<open>init\<close> is invoked. That callback is taken to return normally.
\<close>

datatype event = Init string "jsval list" | NodeDone string "error option" | Callback "error option"

definition dependencyValue :: "loader \<Rightarrow> string \<Rightarrow> jsval" where
  \<comment> \<open>\<^verbatim>\<open>moduleMap[deps[i]] || injectedMap[deps[i]]\<close>\<close>
  "dependencyValue L dep =
     (case js_get (moduleMap L) dep of
        Own m \<Rightarrow> JObj (oid m)
      | Inherited k \<Rightarrow> JBuiltin k
      | Missing \<Rightarrow> js_value (js_get (injectedMap L) dep))"

text \<open>
  The body of the inner iterator, for one service id: the events it emits at once and how
  the node completes. Reading \<^verbatim>\<open>init\<close> of an \<^verbatim>\<open>undefined\<close> module, or \<^verbatim>\<open>length\<close> of an
  \<^verbatim>\<open>undefined\<close> dependency list, raises a \<^verbatim>\<open>TypeError\<close> that nothing here catches; so does a
  throw of an \<^verbatim>\<open>init\<close> that was called with a callback.
\<close>

datatype completion = Completed "error option" | Later nat "error option" | Never | Raised error

definition initService :: "loader \<Rightarrow> string \<Rightarrow> event list \<times> completion" where
  "initService L serviceId =
     (if truthy (js_value (js_get (injectedMap L) serviceId)) \<or>
         present (js_get (consumerMap L) serviceId)
      then ([], Completed None)
      else case js_get (moduleMap L) serviceId of
             Own toLoad \<Rightarrow>
               (case js_get (dependencyMap L) serviceId of
                  Own deps \<Rightarrow>
                    (let params = map (dependencyValue L) deps
                     in ([Init serviceId params],
                         if hasCallback toLoad
                         then (case initFn toLoad params of
                                 Returns \<Rightarrow> Never
                               | Throws e \<Rightarrow> Raised e
                               | CallsBack err \<Rightarrow> Completed err
                               | Defers t err \<Rightarrow> Later t err)
                         else (case initFn toLoad params of
                                 Throws e \<Rightarrow> Completed (Some e)
                               | _ \<Rightarrow> Completed None)))
                | _ \<Rightarrow> ([], Raised (TypeError ''deps.length of undefined'')))
           | _ \<Rightarrow> ([], Raised (TypeError ''toLoad.init of undefined'')))"

text \<open>
  \<^verbatim>\<open>async.each\<close> over one group. It starts every member in order; each completion goes
  through \<^verbatim>\<open>done\<close>: the first error invokes the group's callback, which hands it through
  \<^verbatim>\<open>async.eachSeries\<close> to the callback of \<^verbatim>\<open>init\<close>, and later completions are ignored; the
  last of as many successes as there are members completes the group. Deferred callbacks
  arrive after the loop, by tick and then in the order of the calls. An exception leaves
  the loop; the model follows a run no further than that.
\<close>

record group =
  trace :: "event list"
  failed :: "error option"
  completed :: nat
  waiting :: "(nat \<times> string \<times> error option) list"

definition serviceCallback :: "string \<Rightarrow> error option \<Rightarrow> group \<Rightarrow> group" where
  "serviceCallback ident err G =
     (case err of
        Some e \<Rightarrow> if failed G \<noteq> None then G\<lparr>trace := trace G @ [NodeDone ident err]\<rparr>
                  else G\<lparr>trace := trace G @ [NodeDone ident err, Callback err], failed := err\<rparr>
      | None \<Rightarrow> G\<lparr>trace := trace G @ [NodeDone ident None], completed := completed G + 1\<rparr>)"

fun eachLoop :: "loader \<Rightarrow> string list \<Rightarrow> group \<Rightarrow> group \<times> error option" where
  "eachLoop L [] G = (G, None)"
| "eachLoop L (serviceId # rest) G =
     (case initService L serviceId of
        (evs, Raised e) \<Rightarrow> (G\<lparr>trace := trace G @ evs\<rparr>, Some e)
      | (evs, Completed err) \<Rightarrow>
          eachLoop L rest (serviceCallback serviceId err (G\<lparr>trace := trace G @ evs\<rparr>))
      | (evs, Later t err) \<Rightarrow>
          eachLoop L rest
            (G\<lparr>trace := trace G @ evs, waiting := waiting G @ [(t, serviceId, err)]\<rparr>)
      | (evs, Never) \<Rightarrow> eachLoop L rest (G\<lparr>trace := trace G @ evs\<rparr>))"

datatype group_outcome = Succeeded | GroupFailed error | GroupThrew error | GroupPending

definition each :: "loader \<Rightarrow> string list \<Rightarrow> event list \<times> group_outcome" where
  "each L serviceIds =
     (case eachLoop L serviceIds \<lparr>trace = [], failed = None, completed = 0, waiting = []\<rparr> of
        (G, Some e) \<Rightarrow> (trace G, GroupThrew e)
      | (G, None) \<Rightarrow>
          (let G' = fold (\<lambda>(t, ident, err). serviceCallback ident err) (sort_key fst (waiting G)) G
           in (trace G',
               case failed G' of
                 Some e \<Rightarrow> GroupFailed e
               | None \<Rightarrow> if completed G' = length serviceIds then Succeeded else GroupPending)))"

text \<open>
  \<^verbatim>\<open>async.eachSeries\<close> over the groups, and \<^verbatim>\<open>init\<close> itself. A run ends \<open>Done\<close> (the callback
  was invoked without an error), \<open>Failed\<close> (it was invoked with one), \<open>Threw\<close> (an exception
  escaped), \<open>Pending\<close> (a node never calls back, so the callback is never invoked) or, in the
  model only, \<open>Diverged\<close> (the fetch ran out of fuel). \<open>initList\<close> is \<open>None\<close> when \<^verbatim>\<open>init\<close> is
  called with the callback alone.
\<close>

datatype ending = Done | Failed error | Threw error | Pending | Diverged

fun eachSeries :: "loader \<Rightarrow> string list list \<Rightarrow> event list \<times> ending" where
  "eachSeries L [] = ([Callback None], Done)"
| "eachSeries L (serviceIds # rest) =
     (case each L serviceIds of
        (evs, Succeeded) \<Rightarrow> (case eachSeries L rest of (evs', fin) \<Rightarrow> (evs @ evs', fin))
      | (evs, GroupFailed e) \<Rightarrow> (evs, Failed e)
      | (evs, GroupThrew e) \<Rightarrow> (evs, Threw e)
      | (evs, GroupPending) \<Rightarrow> (evs, Pending))"

record run =
  events :: "event list"
  ending :: ending
  externals :: "extcall list"
  after :: loader

definition init :: "nat \<Rightarrow> subRequire \<Rightarrow> dependencyCalc \<Rightarrow> loader \<Rightarrow> string list option \<Rightarrow> run" where
  "init fuel sr depCalc L initList =
     (case fetchUnmetDependencies fuel sr L [] of
        OutOfFuel L' made \<Rightarrow> \<lparr>events = [], ending = Diverged, externals = made, after = L'\<rparr>
      | LoadFailed e L' made \<Rightarrow>
          \<lparr>events = [Callback (Some e)], ending = Failed e, externals = made, after = L'\<rparr>
      | Resolved L' made \<Rightarrow>
          (case calculateDependencyTree depCalc L' initList of
             Inl e \<Rightarrow> \<lparr>events = [Callback (Some e)], ending = Failed e, externals = made, after = L'\<rparr>
           | Inr depGroups \<Rightarrow>
               (case eachSeries L' depGroups of
                  (evs, fin) \<Rightarrow> \<lparr>events = evs, ending = fin, externals = made, after = L'\<rparr>)))"

section \<open>Observations on runs\<close>

text \<open>What the callback of \<^verbatim>\<open>init\<close> received, the errors the nodes reported, the nodes that
  completed, and the calls of \<^verbatim>\<open>init\<close> functions, each in the order of the run.\<close>

fun callbacks :: "event list \<Rightarrow> error option list" where
  "callbacks [] = []"
| "callbacks (Callback err # evs) = err # callbacks evs"
| "callbacks (ev # evs) = callbacks evs"

fun nodeErrors :: "event list \<Rightarrow> error list" where
  "nodeErrors [] = []"
| "nodeErrors (NodeDone x (Some e) # evs) = e # nodeErrors evs"
| "nodeErrors (ev # evs) = nodeErrors evs"

fun finished :: "event list \<Rightarrow> string list" where
  "finished [] = []"
| "finished (NodeDone x err # evs) = x # finished evs"
| "finished (ev # evs) = finished evs"

fun inits :: "event list \<Rightarrow> (string \<times> jsval list) list" where
  "inits [] = []"
| "inits (Init x args # evs) = (x, args) # inits evs"
| "inits (ev # evs) = inits evs"

text \<open>\<open>starts k evs\<close> pairs every started node with the number of nodes that had completed
  when it was started, counting from \<open>k\<close>.\<close>

fun starts :: "nat \<Rightarrow> event list \<Rightarrow> (nat \<times> string) list" where
  "starts k [] = []"
| "starts k (Init x args # evs) = (k, x) # starts k evs"
| "starts k (NodeDone x err # evs) = starts (Suc k) evs"
| "starts k (Callback err # evs) = starts k evs"

text \<open>Notions for the invariants of the fetch and of a group.\<close>

fun requiredIds :: "extcall list \<Rightarrow> string list" where
  "requiredIds [] = []"
| "requiredIds (Require d p # cs) = d # requiredIds cs"
| "requiredIds (Unload d # cs) = requiredIds cs"

fun fetchedLoader :: "fetched \<Rightarrow> loader" where
  "fetchedLoader (Resolved L cs) = L"
| "fetchedLoader (LoadFailed e L cs) = L"
| "fetchedLoader (OutOfFuel L cs) = L"

fun fetchedCalls :: "fetched \<Rightarrow> extcall list" where
  "fetchedCalls (Resolved L cs) = cs"
| "fetchedCalls (LoadFailed e L cs) = cs"
| "fetchedCalls (OutOfFuel L cs) = cs"

definition keeps :: "string \<Rightarrow> fetching \<Rightarrow> fetching \<Rightarrow> bool" where
  \<comment> \<open>what the fetch leaves alone for an id \<open>d\<close>: the injected map, the module entry of \<open>d\<close>,
      and the set of loads of \<open>d\<close>\<close>
  "keeps d F F' \<longleftrightarrow> injectedMap (ldr F') = injectedMap (ldr F) \<and>
     js_get (moduleMap (ldr F')) d = js_get (moduleMap (ldr F)) d \<and>
     (d \<in> set (requiredIds (calls F')) \<longrightarrow> d \<in> set (requiredIds (calls F)))"

fun succeeded :: "subRequire \<Rightarrow> extcall \<Rightarrow> bool" where
  "succeeded sr (Require d p) = (case sr d p of Inl msg \<Rightarrow> False | Inr m \<Rightarrow> True)"
| "succeeded sr (Unload d) = True"

definition loadError :: "string \<Rightarrow> string \<Rightarrow> string \<Rightarrow> error" where
  "loadError depId ident msg =
     Error (''Error loading dependency '' @ depId @ '' for '' @ ident @ '': '' @ msg)"

definition failedAt :: "subRequire \<Rightarrow> error \<Rightarrow> extcall list \<Rightarrow> bool" where
  \<comment> \<open>the last call failed, with this error, and all calls before it succeeded\<close>
  "failedAt sr e cs \<longleftrightarrow>
     (\<exists>good d p msg. cs = good @ [Require d p] \<and> list_all (succeeded sr) good \<and>
        sr d p = Inl msg \<and> e = loadError d p msg)"


definition declared :: "loader \<Rightarrow> (string \<times> jsval list) set" where
  \<comment> \<open>a node with the values of its declared dependencies, in their order\<close>
  "declared L = {(x, args). \<exists>deps. js_get (dependencyMap L) x = Own deps \<and>
                              args = map (dependencyValue L) deps}"

section \<open>What a node reports, and sequential execution\<close>

text \<open>
  Read off the iterator body of \<^verbatim>\<open>init\<close>. A node is \<open>skipped\<close> - completed at once, nothing
  called - when it is an injected object or a consumer. Otherwise \<open>reported cb r\<close> is what
  the node's callback receives when the module's \<^verbatim>\<open>init\<close> behaves as \<open>r\<close>, \<open>cb\<close> telling
  whether \<^verbatim>\<open>init\<close> takes a callback: an \<^verbatim>\<open>init\<close> with a callback reports what it passes to
  it, and nothing (\<open>None\<close>) when it returns without calling it or throws; an \<^verbatim>\<open>init\<close> without
  a callback is wrapped in \<^verbatim>\<open>try\<close>/\<^verbatim>\<open>catch\<close> and reports the error it throws, or success.
  \<open>deferred r\<close> holds when the callback is invoked at a later tick, and \<open>escaped\<close> is the
  exception that left a run, if any.
\<close>

definition skipped :: "loader \<Rightarrow> string \<Rightarrow> bool" where
  "skipped L x \<longleftrightarrow> truthy (js_value (js_get (injectedMap L) x)) \<or> present (js_get (consumerMap L) x)"

fun reported :: "bool \<Rightarrow> init_result \<Rightarrow> error option option" where
  "reported True (CallsBack err) = Some err"
| "reported True (Defers t err) = Some err"
| "reported True Returns = None"
| "reported True (Throws e) = None"
| "reported False (Throws e) = Some (Some e)"
| "reported False r = Some None"






text \<open>
  The completions of a trace in their order (\<open>doneEvents\<close>), and the order in which the
  members of one group complete (\<open>arrivals\<close>): those that complete during their call, in the
  order of the group, then the deferred ones by tick, ties in the order of the group.
\<close>

fun doneEvents :: "event list \<Rightarrow> (string \<times> error option) list" where
  "doneEvents [] = []"
| "doneEvents (NodeDone x err # evs) = (x, err) # doneEvents evs"
| "doneEvents (ev # evs) = doneEvents evs"




text \<open>
  What executing a list of identifiers strictly in sequence means, stated on its own and
  not through \<^verbatim>\<open>async.each\<close> and \<^verbatim>\<open>async.eachSeries\<close>: the identifiers are taken one at a time;
  a skipped one completes; any other is started with the values of its declared
  dependencies, and the next one is taken only when this one has reported success. A
  reported error goes to the callback of \<^verbatim>\<open>init\<close> and ends the run; a node that reports
  nothing ends it as well, \<open>Pending\<close> or with the exception it threw. The runs of \<^verbatim>\<open>init\<close>
  with a forced order are compared with \<open>series\<close> below. \<open>succeeds L x\<close> holds when node \<open>x\<close>
  is skipped or is a module that reports success, and \<open>awaited\<close> says what follows the
  start of a node in a trace.
\<close>

fun series :: "loader \<Rightarrow> string list \<Rightarrow> event list \<times> ending" where
  "series L [] = ([Callback None], Done)"
| "series L (x # xs) =
     (if skipped L x then (case series L xs of (evs, fin) \<Rightarrow> (NodeDone x None # evs, fin))
      else case js_get (moduleMap L) x of
             Own m \<Rightarrow>
               (case js_get (dependencyMap L) x of
                  Own deps \<Rightarrow>
                    (let args = map (dependencyValue L) deps
                     in case reported (hasCallback m) (initFn m args) of
                          Some None \<Rightarrow>
                            (case series L xs of
                               (evs, fin) \<Rightarrow> (Init x args # NodeDone x None # evs, fin))
                        | Some (Some e) \<Rightarrow>
                            ([Init x args, NodeDone x (Some e), Callback (Some e)], Failed e)
                        | None \<Rightarrow>
                            ([Init x args],
                             case initFn m args of Throws e \<Rightarrow> Threw e | _ \<Rightarrow> Pending))
                | _ \<Rightarrow> ([], Threw (TypeError ''deps.length of undefined'')))
           | _ \<Rightarrow> ([], Threw (TypeError ''toLoad.init of undefined'')))"

definition succeeds :: "loader \<Rightarrow> string \<Rightarrow> bool" where
  "succeeds L x \<longleftrightarrow> skipped L x \<or>
     (case js_get (moduleMap L) x of
        Own m \<Rightarrow> (case js_get (dependencyMap L) x of
                    Own deps \<Rightarrow> reported (hasCallback m) (initFn m (map (dependencyValue L) deps)) = Some None
                  | _ \<Rightarrow> False)
      | _ \<Rightarrow> False)"

definition awaited :: "loader \<Rightarrow> ending \<Rightarrow> string \<Rightarrow> jsval list \<Rightarrow> event list \<Rightarrow> bool" where
  "awaited L fin x args post \<longleftrightarrow>
     (\<exists>m. js_get (moduleMap L) x = Own m \<and>
        (case reported (hasCallback m) (initFn m args) of
           Some err \<Rightarrow> (\<exists>post'. post = NodeDone x err # post')
         | None \<Rightarrow> post = [] \<and> fin = (case initFn m args of Throws e \<Rightarrow> Threw e | _ \<Rightarrow> Pending)))"

section \<open>Example configurations\<close>

text \<open>
  Modules and registries for the concrete runs below. \<open>noExternal\<close> is an external loader
  that finds nothing; \<open>registrationOrder\<close> stands for a dependency calculator in runs with a
  forced order, which never call it; \<open>nothingElse\<close> answers \<^verbatim>\<open>NaN\<close> for every conversion to a
  number that the model leaves to the runtime.
\<close>

definition apiModule :: jsmodule where
  "apiModule = \<lparr>oid = 1, paramNames = [''cache''], hasCallback = False,
                 initFn = (\<lambda>args. Returns), getDependencies = None\<rparr>"

definition cacheModule :: jsmodule where
  "cacheModule = \<lparr>oid = 2, paramNames = [], hasCallback = False,
                   initFn = (\<lambda>args. Returns), getDependencies = None\<rparr>"



definition noExternal :: subRequire where
  "noExternal ident parentId = Inl (''Cannot find module '' @ ident)"

definition registrationOrder :: dependencyCalc where
  "registrationOrder nodes = Inr (map (\<lambda>node. [fst node]) nodes)"

definition nothingElse :: "jsval \<Rightarrow> jsnum" where
  "nothingElse v = NaN"

definition apiOnly :: loader where
  "apiOnly = loadServices createLoader [(''api'', apiModule)]"

definition injectedCache :: loader where
  "injectedCache = inject apiOnly ''cache'' (JObj 7) None"

definition cacheAndApi :: loader where
  "cacheAndApi = loadServices createLoader [(''cache'', cacheModule), (''api'', apiModule)]"

definition collidingCache :: loader where
  "collidingCache = inject cacheAndApi ''cache'' (JObj 7) None"



definition fooBarService :: loader where
  "fooBarService = loadServices createLoader [(''fooBar'', cacheModule)]"

definition pipesOfIntegers :: schema where
  "pipesOfIntegers =
     Schema (Some ''array'') (Some ''pipes'') (Some (Schema (Some ''integer'') None None))"

text \<open>
  Modules whose \<^verbatim>\<open>init\<close> takes a callback: one that calls back at a later tick, one that
  never calls back, one that reports an error at a later tick, one that reports an error
  at once; a module that names its dependency \<^verbatim>\<open>constructor\<close>; and a dependency calculator
  that puts all nodes into one group.
\<close>

definition slowCacheModule :: jsmodule where
  "slowCacheModule = \<lparr>oid = 5, paramNames = [], hasCallback = True,
                       initFn = (\<lambda>args. Defers 3 None), getDependencies = None\<rparr>"

definition hangingModule :: jsmodule where
  "hangingModule = \<lparr>oid = 6, paramNames = [], hasCallback = True,
                     initFn = (\<lambda>args. Returns), getDependencies = None\<rparr>"



definition factoryModule :: jsmodule where
  "factoryModule = \<lparr>oid = 10, paramNames = [''constructor''], hasCallback = False,
                     initFn = (\<lambda>args. Returns), getDependencies = None\<rparr>"


definition slowCacheAndApi :: loader where
  "slowCacheAndApi = loadServices createLoader [(''cache'', slowCacheModule), (''api'', apiModule)]"

definition hangingAndCache :: loader where
  "hangingAndCache = loadServices createLoader [(''hang'', hangingModule), (''cache'', cacheModule)]"



definition injectedConstructor :: loader where
  "injectedConstructor =
     inject (loadServices createLoader [(''factory'', factoryModule)]) ''constructor'' (JObj 7) None"

chapter \<open>Properties\<close>

section \<open>Name normalization\<close>

lemma toLowerChar_not_upper: "\<not> isUpperAZ (toLowerChar c)"
  unfolding isUpperAZ_def toLowerChar_def Let_def by auto

lemma toLowerChar_separator: "isSeparator (toLowerChar c) = isSeparator c"
  unfolding isSeparator_def toLowerChar_def Let_def by auto

lemma toLowerChar_idem: "toLowerChar (toLowerChar c) = toLowerChar c"
  unfolding toLowerChar_def Let_def by auto

lemma toLowerChar_fixes_separator: "isSeparator c \<Longrightarrow> toLowerChar c = c"
  unfolding isSeparator_def toLowerChar_def Let_def by auto

lemma dash_is_separator: "isSeparator CHR ''-''"
  by (simp add: isSeparator_def)

lemma dashCapitals_no_upper: "\<forall>c \<in> set s. \<not> isUpperAZ c \<Longrightarrow> dashCapitals s = s"
  by (induction s) auto

lemma collapse_head:
  "collapseSeparators (d # ds) = e # es \<Longrightarrow> \<not> isSeparator d \<Longrightarrow> \<not> isSeparator e"
  by (auto split: if_splits)

lemma dropWhile_head: "dropWhile P xs = d # ds \<Longrightarrow> \<not> P d"
  by (metis hd_dropWhile list.sel(1) neq_Nil_conv)

lemma sepNormal_collapse: "sepNormal (collapseSeparators s)"
proof (induction s rule: collapseSeparators.induct)
  case 1
  show ?case by simp
next
  case (2 c cs)
  show ?case
  proof (cases "isSeparator c")
    case False
    with 2 show ?thesis by simp
  next
    case True
    have hd_ok: "case collapseSeparators (dropWhile isSeparator cs) of
                   [] \<Rightarrow> True | d # _ \<Rightarrow> \<not> isSeparator d"
    proof (cases "dropWhile isSeparator cs")
      case Nil
      then show ?thesis by (simp del: dropWhile_eq_Nil_conv)
    next
      case (Cons d ds)
      then have "\<not> isSeparator d" by (rule dropWhile_head)
      with Cons show ?thesis by (auto split: list.splits if_splits)
    qed
    from True 2 hd_ok show ?thesis by (simp add: dash_is_separator)
  qed
qed

lemma collapse_sepNormal: "sepNormal s \<Longrightarrow> collapseSeparators s = s"
proof (induction s)
  case Nil
  show ?case by simp
next
  case (Cons c cs)
  show ?case
  proof (cases "isSeparator c")
    case False
    with Cons show ?thesis by simp
  next
    case True
    with Cons.prems have c: "c = CHR ''-''" and tl: "sepNormal cs"
      and nxt: "case cs of [] \<Rightarrow> True | d # _ \<Rightarrow> \<not> isSeparator d"
      by simp_all
    from nxt have "dropWhile isSeparator cs = cs" by (cases cs) simp_all
    with True c tl Cons.IH show ?thesis by simp
  qed
qed

lemma sepNormal_toLowerCase: "sepNormal s \<Longrightarrow> sepNormal (toLowerCase s)"
proof (induction s)
  case Nil
  show ?case by (simp add: toLowerCase_def)
next
  case (Cons c cs)
  then show ?case
    by (cases cs)
       (auto simp: toLowerCase_def toLowerChar_separator toLowerChar_fixes_separator
             split: if_splits)
qed

lemma toLowerCase_idem: "toLowerCase (toLowerCase s) = toLowerCase s"
  by (simp add: toLowerCase_def toLowerChar_idem)

lemma toLowerCase_no_upper: "\<forall>c \<in> set (toLowerCase s). \<not> isUpperAZ c"
  by (simp add: toLowerCase_def toLowerChar_not_upper)

lemma normalizeServiceName_fixpoint:
  "normalizeServiceName (normalizeServiceName s) = normalizeServiceName s"
proof -
  let ?t = "collapseSeparators (dashCapitals s)"
  have "dashCapitals (toLowerCase ?t) = toLowerCase ?t"
    by (rule dashCapitals_no_upper) (rule toLowerCase_no_upper)
  moreover have "collapseSeparators (toLowerCase ?t) = toLowerCase ?t"
    by (rule collapse_sepNormal) (rule sepNormal_toLowerCase, rule sepNormal_collapse)
  ultimately show ?thesis
    by (simp add: normalizeServiceName_def toLowerCase_idem)
qed

subsection \<open>Claim C5\<close>

text \<open>
  Claim C5, as stated, fails: normalization is not case-insensitive. Every capital letter gets
  its own dash, so \<^verbatim>\<open>"FOO_BAR"\<close> becomes \<^verbatim>\<open>"-f-o-o-b-a-r"\<close>, which differs from the
  normal form \<^verbatim>\<open>"foo-bar"\<close> of \<^verbatim>\<open>"fooBar"\<close> and \<^verbatim>\<open>"foo-bar"\<close>.
\<close>

theorem C5_case_insensitive_counterexample:
  "normalizeServiceName ''FOO_BAR'' = ''-f-o-o-b-a-r'' \<and>
   normalizeServiceName ''fooBar'' = ''foo-bar'' \<and>
   normalizeServiceName ''FOO_BAR'' \<noteq> normalizeServiceName ''fooBar''"
  by code_simp

text \<open>
  Claim C5, amended: name normalization is idempotent for every string, and it is insensitive
  to camel case against separators and to the choice of separator:
  \<^verbatim>\<open>"fooBar"\<close>, \<^verbatim>\<open>"foo-bar"\<close> and \<^verbatim>\<open>"foo_bar"\<close> all normalize to \<^verbatim>\<open>"foo-bar"\<close>.
\<close>

theorem C5_normalize_idempotent:
  "normalizeServiceName (normalizeServiceName s) = normalizeServiceName s \<and>
   normalizeServiceName ''fooBar'' = ''foo-bar'' \<and>
   normalizeServiceName ''foo-bar'' = ''foo-bar'' \<and>
   normalizeServiceName ''foo_bar'' = ''foo-bar''"
proof -
  have "normalizeServiceName ''fooBar'' = ''foo-bar''" by code_simp
  moreover have "normalizeServiceName ''foo-bar'' = ''foo-bar''" by code_simp
  moreover have "normalizeServiceName ''foo_bar'' = ''foo-bar''" by code_simp
  ultimately show ?thesis by (simp add: normalizeServiceName_fixpoint)
qed

section \<open>The schema utility\<close>

subsection \<open>Claim C9\<close>

text \<open>
  Claim C9: \<^verbatim>\<open>cast\<close> applied to the schema
  \<^verbatim>\<open>{type:"array", collectionFormat:"pipes", items:{type:"integer"}}\<close> and the raw string
  \<^verbatim>\<open>"1|2|3"\<close> returns the array \<^verbatim>\<open>[1,2,3]\<close>: the raw string is split on the delimiter of the
  format (second conjunct), and each element is cast against the item schema (third
  conjunct, for every raw string and every item schema).
\<close>

theorem C9_pipes_array:
  "castValueFromString other pipesOfIntegers (JStr ''1|2|3'') =
     Inr (JArr [JNum (Finite 1), JNum (Finite 2), JNum (Finite 3)]) \<and>
   parseArray (JStr ''1|2|3'') ''pipes'' = Inr [JStr ''1'', JStr ''2'', JStr ''3''] \<and>
   castValueFromString other (Schema (Some ''array'') (Some ''pipes'') its) (JStr s) =
     (case castElements other its (map JStr (js_split ''|'' s)) of
        Inl e \<Rightarrow> Inl e | Inr ys \<Rightarrow> Inr (JArr ys))"
proof -
  have "castValueFromString other pipesOfIntegers (JStr ''1|2|3'') =
     Inr (JArr [JNum (Finite 1), JNum (Finite 2), JNum (Finite 3)])" by code_simp
  moreover have "parseArray (JStr ''1|2|3'') ''pipes'' = Inr [JStr ''1'', JStr ''2'', JStr ''3'']"
    by code_simp
  moreover have "js_get splitChar ''pipes'' = Own ''|''" by code_simp
  ultimately show ?thesis by (simp add: parseArray_def)
qed

subsection \<open>Claim C10\<close>

text \<open>
  Claim C10: for a schema of type \<^verbatim>\<open>boolean\<close>, \<^verbatim>\<open>cast\<close> turns exactly the strings \<^verbatim>\<open>"true"\<close>
  and \<^verbatim>\<open>"false"\<close> into the booleans; every other value, whatever its type, is returned as it
  is, in particular \<^verbatim>\<open>"True"\<close>, \<^verbatim>\<open>"TRUE"\<close> and \<^verbatim>\<open>"1"\<close> stay strings.
\<close>

theorem C10_boolean_literals:
  "castValueFromString other (Schema (Some ''boolean'') cf its) (JStr ''true'') = Inr (JBool True) \<and>
   castValueFromString other (Schema (Some ''boolean'') cf its) (JStr ''false'') = Inr (JBool False) \<and>
   (v \<noteq> JStr ''true'' \<and> v \<noteq> JStr ''false'' \<longrightarrow>
      castValueFromString other (Schema (Some ''boolean'') cf its) v = Inr v) \<and>
   castValueFromString other (Schema (Some ''boolean'') cf its) (JStr ''True'') = Inr (JStr ''True'') \<and>
   castValueFromString other (Schema (Some ''boolean'') cf its) (JStr ''TRUE'') = Inr (JStr ''TRUE'') \<and>
   castValueFromString other (Schema (Some ''boolean'') cf its) (JStr ''1'') = Inr (JStr ''1'')"
  by simp

text \<open>Witness for C10: the string \<^verbatim>\<open>"yes"\<close> is neither literal and is returned unchanged.\<close>

theorem C10_boolean_literals_witness:
  "JStr ''yes'' \<noteq> JStr ''true'' \<and> JStr ''yes'' \<noteq> JStr ''false'' \<and>
   castValueFromString nothingElse (Schema (Some ''boolean'') None None) (JStr ''yes'') = Inr (JStr ''yes'')"
  using C10_boolean_literals[of nothingElse None None "JStr ''yes''"] by simp

section \<open>The registry: \<^verbatim>\<open>get\<close> and \<^verbatim>\<open>unload\<close>\<close>

lemma js_get_update_other: "k \<noteq> k' \<Longrightarrow> js_get (AList.update k v obj) k' = js_get obj k'"
  by (simp add: js_get_def update_conv')

lemma js_get_update_same: "js_get (AList.update k v obj) k = Own v"
  by (simp add: js_get_def update_conv')

subsection \<open>Claim C7\<close>

text \<open>
  Claim C7, as stated, fails twice. \<^verbatim>\<open>get\<close> reads the module map only: after
  \<^verbatim>\<open>inject("cache", obj)\<close>, \<^verbatim>\<open>get("cache")\<close> is \<^verbatim>\<open>undefined\<close>. And \<^verbatim>\<open>get\<close> does not normalize its
  argument: a service registered from the id \<^verbatim>\<open>fooBar\<close> is stored under \<^verbatim>\<open>foo-bar\<close> and found
  under that key only.
\<close>

theorem C7_get_counterexample:
  "get (inject createLoader ''cache'' (JObj 7) None) ''cache'' = JUndefined \<and>
   get fooBarService ''fooBar'' = JUndefined \<and>
   get fooBarService ''foo-bar'' = JObj 2"
  by code_simp

text \<open>
  Claim C7, amended: \<^verbatim>\<open>get(id)\<close> returns the module stored in the module map under exactly
  the string \<^verbatim>\<open>id\<close>, and \<^verbatim>\<open>undefined\<close> when the map has no such key (and \<^verbatim>\<open>id\<close> names no
  property that every object inherits). Services are stored under the canonical form of
  their id, so that is the key to ask for; no canonicalization is applied on this read
  path, and injected objects are never returned.
\<close>

theorem C7_get_exact_key:
  "get (loadServices L [(s, m)]) (normalizeServiceName s) = JObj (oid m) \<and>
   get (inject L s v deps) ident = get L ident \<and>
   (map_of (moduleMap L) ident = Some m \<longrightarrow> get L ident = JObj (oid m)) \<and>
   (map_of (moduleMap L) ident = None \<and> ident \<notin> set objectPrototype \<longrightarrow> get L ident = JUndefined)"
proof -
  have "get (loadServices L [(s, m)]) (normalizeServiceName s) = JObj (oid m)"
    by (simp add: get_def Let_def js_get_update_same)
  moreover have "get (inject L s v deps) ident = get L ident"
    by (cases deps) (simp_all add: get_def inject_def Let_def)
  ultimately show ?thesis by (simp add: get_def js_get_def)
qed

text \<open>Witness for C7: the raw id \<^verbatim>\<open>fooBar\<close> is no key of the module map, and \<^verbatim>\<open>get\<close> returns
  \<^verbatim>\<open>undefined\<close> for it.\<close>

theorem C7_get_exact_key_witness:
  "map_of (moduleMap fooBarService) ''fooBar'' = None \<and> ''fooBar'' \<notin> set objectPrototype \<and>
   get fooBarService ''fooBar'' = JUndefined"
proof -
  have n: "normalizeServiceName ''fooBar'' = ''foo-bar''" by code_simp
  have h1: "map_of (moduleMap fooBarService) ''fooBar'' = None"
    by (simp add: fooBarService_def createLoader_def Let_def n)
  have h2: "''fooBar'' \<notin> set objectPrototype" by (simp add: objectPrototype_def)
  from h1 h2 C7_get_exact_key[where L = fooBarService and ident = "''fooBar''"]
  show ?thesis by blast
qed

subsection \<open>Claim C8\<close>

text \<open>
  Claim C8, as stated, fails: \<^verbatim>\<open>unload\<close> removes nothing from the registry. After
  \<^verbatim>\<open>unload("foo-bar")\<close> the module registered under \<^verbatim>\<open>foo-bar\<close> is still what \<^verbatim>\<open>get\<close> returns.
\<close>

theorem C8_unload_counterexample:
  "get (fst (unload fooBarService ''foo-bar'')) ''foo-bar'' = JObj 2 \<and>
   get (fst (unload fooBarService ''foo-bar'')) ''foo-bar'' \<noteq> JUndefined"
  by code_simp

text \<open>
  Claim C8, amended: \<^verbatim>\<open>unload(id)\<close> asks the external loader to forget \<^verbatim>\<open>id\<close> (the one call
  \<^verbatim>\<open>subRequire.unload(id)\<close>, with the id as given) and leaves the registry as it is: the
  module record stays, and \<^verbatim>\<open>get\<close> returns afterwards what it returned before.
\<close>

theorem C8_unload_forgets_only:
  "snd (unload L ident) = [Unload ident] \<and> fst (unload L ident) = L \<and>
   get (fst (unload L ident)) x = get L x"
  by (simp add: unload_def)

section \<open>Fetching unmet dependencies\<close>

lemma loadExternalModule_injected:
  "loadExternalModule sr p d L = Inr L' \<Longrightarrow> injectedMap L' = injectedMap L"
  by (auto simp: loadExternalModule_def split: sum.splits)

lemma loadExternalModule_moduleMap:
  "loadExternalModule sr p d L = Inr L' \<Longrightarrow> k \<noteq> d \<Longrightarrow> js_get (moduleMap L') k = js_get (moduleMap L) k"
  by (auto simp: loadExternalModule_def js_get_update_other split: sum.splits)

lemma loadExternalModule_fails:
  "loadExternalModule sr p d L = Inl msg \<longleftrightarrow> sr d p = Inl msg"
  by (auto simp: loadExternalModule_def split: sum.splits)

lemma loadExternalModule_succeeds:
  "loadExternalModule sr p d L = Inr L' \<Longrightarrow> \<exists>m. sr d p = Inr m"
  by (auto simp: loadExternalModule_def split: sum.splits)

lemma requiredIds_append: "requiredIds (xs @ ys) = requiredIds xs @ requiredIds ys"
  by (induction xs rule: requiredIds.induct) auto

lemma requiredIds_mem: "Require d p \<in> set cs \<Longrightarrow> d \<in> set (requiredIds cs)"
  by (induction cs rule: requiredIds.induct) auto

lemma keeps_refl: "keeps d F F"
  by (simp add: keeps_def)

lemma keeps_trans: "keeps d F F' \<Longrightarrow> keeps d F' F'' \<Longrightarrow> keeps d F F''"
  by (auto simp: keeps_def)

text \<open>An id whose injected value is truthy is never loaded, and its module entry stays.\<close>

lemma forEachDep_keeps:
  assumes "truthy (js_value (js_get (injectedMap (ldr F)) d))"
  shows "(forEachDep sr p ds F = Inr F' \<longrightarrow> keeps d F F') \<and>
         (forEachDep sr p ds F = Inl (e, F') \<longrightarrow> keeps d F F')"
  using assms
proof (induction sr p ds F rule: forEachDep.induct)
  case (1 sr p F)
  then show ?case by (auto simp: keeps_def)
next
  case (2 sr p depId rest F)
  show ?case
  proof (cases "\<not> present (js_get (dependencyMap (ldr F)) depId) \<and>
         \<not> truthy (js_value (js_get (injectedMap (ldr F)) depId))")
    case False
    with 2 show ?thesis by auto
  next
    case True
    then have ne: "depId \<noteq> d" using 2(3) by auto
    show ?thesis
    proof (cases "loadExternalModule sr p depId (ldr F)")
      case (Inl msg)
      with True ne show ?thesis by (auto simp: keeps_def requiredIds_append)
    next
      case (Inr L')
      let ?F1 = "F\<lparr>ldr := L', calls := calls F @ [Require depId p], runAgain := True\<rparr>"
      have k1: "keeps d F ?F1"
        using Inr ne loadExternalModule_injected[OF Inr] loadExternalModule_moduleMap[OF Inr]
        by (auto simp: keeps_def requiredIds_append)
      then have "truthy (js_value (js_get (injectedMap (ldr ?F1)) d))"
        using 2(3) by (simp add: keeps_def)
      with 2(1)[OF True Inr] have
        "(forEachDep sr p rest ?F1 = Inr F' \<longrightarrow> keeps d ?F1 F') \<and>
         (forEachDep sr p rest ?F1 = Inl (e, F') \<longrightarrow> keeps d ?F1 F')" by simp
      with k1 True Inr show ?thesis by (auto intro: keeps_trans)
    qed
  qed
qed

lemma forIn_keeps:
  assumes "truthy (js_value (js_get (injectedMap (ldr F)) d))"
  shows "(forInDependencyMap sr ids F = Inr F' \<longrightarrow> keeps d F F') \<and>
         (forInDependencyMap sr ids F = Inl (e, F') \<longrightarrow> keeps d F F')"
  using assms
proof (induction ids arbitrary: F)
  case Nil
  then show ?case by (simp add: keeps_refl)
next
  case (Cons i ids)
  show ?case
  proof (cases "js_get (dependencyMap (ldr F)) i")
    case (Own deps)
    show ?thesis
    proof (cases "forEachDep sr i deps F")
      case (Inl x)
      with Own forEachDep_keeps[OF Cons.prems, of sr i deps F' e] show ?thesis by auto
    next
      case (Inr F1)
      with forEachDep_keeps[OF Cons.prems, of sr i deps F1] have k1: "keeps d F F1" by simp
      then have "truthy (js_value (js_get (injectedMap (ldr F1)) d))"
        using Cons.prems by (simp add: keeps_def)
      from Cons.IH[OF this] k1 Own Inr show ?thesis by (auto intro: keeps_trans)
    qed
  next
    case (Inherited k)
    with Cons show ?thesis by simp
  next
    case Missing
    with Cons show ?thesis by simp
  qed
qed

lemma fetch_keeps:
  assumes "truthy (js_value (js_get (injectedMap L) d))"
  shows "keeps d \<lparr>ldr = L, calls = cs, runAgain = b\<rparr>
           \<lparr>ldr = fetchedLoader (fetchUnmetDependencies n sr L cs),
            calls = fetchedCalls (fetchUnmetDependencies n sr L cs), runAgain = b'\<rparr>"
  using assms
proof (induction n arbitrary: L cs)
  case 0
  then show ?case by (simp add: keeps_def)
next
  case (Suc n)
  let ?F0 = "\<lparr>ldr = L, calls = cs, runAgain = False\<rparr>"
  have t0: "truthy (js_value (js_get (injectedMap (ldr ?F0)) d))" using Suc.prems by simp
  show ?case
  proof (cases "forInDependencyMap sr (forInKeys (dependencyMap L)) ?F0")
    case (Inl x)
    obtain e F where x: "x = (e, F)" by (cases x)
    with Inl forIn_keeps[OF t0, of sr "forInKeys (dependencyMap L)" F e]
    have "keeps d ?F0 F" by simp
    with Inl x show ?thesis by (simp add: keeps_def)
  next
    case (Inr F)
    with forIn_keeps[OF t0, of sr "forInKeys (dependencyMap L)" F] have k: "keeps d ?F0 F" by simp
    show ?thesis
    proof (cases "runAgain F")
      case False
      with Inr k show ?thesis by (simp add: keeps_def)
    next
      case True
      from k Suc.prems have "truthy (js_value (js_get (injectedMap (ldr F)) d))"
        by (simp add: keeps_def)
      from Suc.IH[OF this, of "calls F"] k Inr True show ?thesis by (simp add: keeps_def)
    qed
  qed
qed

text \<open>A failed load ends the fetch at once: it is the last call, and the error names it.\<close>

lemma forEachDep_calls:
  assumes "list_all (succeeded sr) (calls F)"
  shows "(forEachDep sr p ds F = Inr F' \<longrightarrow> list_all (succeeded sr) (calls F')) \<and>
         (forEachDep sr p ds F = Inl (e, F') \<longrightarrow> failedAt sr e (calls F'))"
  using assms
proof (induction sr p ds F rule: forEachDep.induct)
  case (1 sr p F)
  then show ?case by auto
next
  case (2 sr p depId rest F)
  show ?case
  proof (cases "\<not> present (js_get (dependencyMap (ldr F)) depId) \<and>
         \<not> truthy (js_value (js_get (injectedMap (ldr F)) depId))")
    case False
    with 2 show ?thesis by auto
  next
    case True
    show ?thesis
    proof (cases "loadExternalModule sr p depId (ldr F)")
      case (Inl msg)
      then have "sr depId p = Inl msg" by (simp add: loadExternalModule_fails)
      with True Inl 2(3) show ?thesis
        by (auto simp: failedAt_def loadError_def)
    next
      case (Inr L')
      then obtain m where "sr depId p = Inr m" by (auto dest: loadExternalModule_succeeds)
      with 2(3) have "list_all (succeeded sr)
          (calls (F\<lparr>ldr := L', calls := calls F @ [Require depId p], runAgain := True\<rparr>))"
        by simp
      from 2(1)[OF True Inr this] True Inr show ?thesis by simp
    qed
  qed
qed

lemma forIn_calls:
  assumes "list_all (succeeded sr) (calls F)"
  shows "(forInDependencyMap sr ids F = Inr F' \<longrightarrow> list_all (succeeded sr) (calls F')) \<and>
         (forInDependencyMap sr ids F = Inl (e, F') \<longrightarrow> failedAt sr e (calls F'))"
  using assms
proof (induction ids arbitrary: F)
  case Nil
  then show ?case by auto
next
  case (Cons i ids)
  show ?case
  proof (cases "js_get (dependencyMap (ldr F)) i")
    case (Own deps)
    show ?thesis
    proof (cases "forEachDep sr i deps F")
      case (Inl x)
      with Own forEachDep_calls[OF Cons.prems, of i deps F' e] show ?thesis by auto
    next
      case (Inr F1)
      with forEachDep_calls[OF Cons.prems, of i deps F1] have "list_all (succeeded sr) (calls F1)"
        by simp
      from Cons.IH[OF this] Own Inr show ?thesis by simp
    qed
  next
    case (Inherited k)
    with Cons show ?thesis by simp
  next
    case Missing
    with Cons show ?thesis by simp
  qed
qed

lemma fetch_calls:
  assumes "list_all (succeeded sr) cs"
  shows "case fetchUnmetDependencies n sr L cs of
           Resolved L' cs' \<Rightarrow> list_all (succeeded sr) cs'
         | LoadFailed e L' cs' \<Rightarrow> failedAt sr e cs'
         | OutOfFuel L' cs' \<Rightarrow> list_all (succeeded sr) cs'"
  using assms
proof (induction n arbitrary: L cs)
  case 0
  then show ?case by simp
next
  case (Suc n)
  let ?F0 = "\<lparr>ldr = L, calls = cs, runAgain = False\<rparr>"
  have s0: "list_all (succeeded sr) (calls ?F0)" using Suc.prems by simp
  show ?case
  proof (cases "forInDependencyMap sr (forInKeys (dependencyMap L)) ?F0")
    case (Inl x)
    obtain e F where x: "x = (e, F)" by (cases x)
    with Inl forIn_calls[OF s0, of "forInKeys (dependencyMap L)" F e] show ?thesis by simp
  next
    case (Inr F)
    with forIn_calls[OF s0, of "forInKeys (dependencyMap L)" F]
    have ok: "list_all (succeeded sr) (calls F)" by simp
    show ?thesis
    proof (cases "runAgain F")
      case False
      with Inr ok show ?thesis by simp
    next
      case True
      with Inr Suc.IH[OF ok, of "ldr F"] show ?thesis by simp
    qed
  qed
qed

lemma failedAt_unique:
  assumes "failedAt sr e cs" and "Require d p \<in> set cs" and "sr d p = Inl msg"
  shows "e = loadError d p msg"
proof -
  from assms(1) obtain good d' p' msg' where cs: "cs = good @ [Require d' p']"
    and good: "list_all (succeeded sr) good" and f: "sr d' p' = Inl msg'"
    and e: "e = loadError d' p' msg'"
    by (auto simp: failedAt_def)
  have "Require d p \<notin> set good"
  proof
    assume "Require d p \<in> set good"
    with good have "succeeded sr (Require d p)" unfolding list_all_iff by blast
    with assms(3) show False by simp
  qed
  with assms(2) cs have "d' = d \<and> p' = p" by auto
  with f e assms(3) show ?thesis by simp
qed

lemma succeeded_no_failure:
  assumes "list_all (succeeded sr) cs" and "Require d p \<in> set cs" and "sr d p = Inl msg"
  shows False
proof -
  from assms(1,2) have "succeeded sr (Require d p)" unfolding list_all_iff by blast
  with assms(3) show False by simp
qed

text \<open>Fuel that suffices once suffices for ever: a fetch that ended is not changed by more
  passes being allowed, and neither is the run of \<^verbatim>\<open>init\<close>.\<close>

lemma fetch_more_fuel:
  "fetchUnmetDependencies n sr L cs = r \<Longrightarrow> (case r of OutOfFuel L' cs' \<Rightarrow> False | _ \<Rightarrow> True) \<Longrightarrow>
   fetchUnmetDependencies (n + k) sr L cs = r"
proof (induction n arbitrary: L cs)
  case 0
  then show ?case by auto
next
  case (Suc n)
  let ?pass = "forInDependencyMap sr (forInKeys (dependencyMap L))
                 \<lparr>ldr = L, calls = cs, runAgain = False\<rparr>"
  show ?case
  proof (cases ?pass)
    case (Inl x)
    with Suc.prems show ?thesis by (cases x) simp
  next
    case (Inr F)
    show ?thesis
    proof (cases "runAgain F")
      case True
      with Suc.prems(1) Inr have "fetchUnmetDependencies n sr (ldr F) (calls F) = r" by simp
      from Suc.IH[OF this Suc.prems(2)] Inr True show ?thesis by simp
    next
      case False
      with Suc.prems Inr show ?thesis by simp
    qed
  qed
qed

lemma init_more_fuel:
  assumes "ending (init n sr depCalc L initList) \<noteq> Diverged"
  shows "init (n + k) sr depCalc L initList = init n sr depCalc L initList"
proof -
  from assms have "case fetchUnmetDependencies n sr L [] of OutOfFuel L' cs' \<Rightarrow> False | _ \<Rightarrow> True"
    by (cases "fetchUnmetDependencies n sr L []") (simp_all add: init_def)
  then have "fetchUnmetDependencies (n + k) sr L [] = fetchUnmetDependencies n sr L []"
    by (rule fetch_more_fuel[OF refl])
  then show ?thesis by (simp add: init_def)
qed

section \<open>Runs of \<^verbatim>\<open>init\<close>\<close>



lemma finished_append: "finished (xs @ ys) = finished xs @ finished ys"
  by (induction xs rule: finished.induct) auto

lemma inits_append: "inits (xs @ ys) = inits xs @ inits ys"
  by (induction xs rule: inits.induct) auto

lemma inits_mem: "Init x args \<in> set evs \<Longrightarrow> (x, args) \<in> set (inits evs)"
  by (induction evs rule: inits.induct) auto

lemma initService_events:
  "initService L x = (evs, c) \<Longrightarrow>
     evs = [] \<or> (\<exists>deps. js_get (dependencyMap L) x = Own deps \<and>
                   evs = [Init x (map (dependencyValue L) deps)])"
  by (auto simp: initService_def Let_def split: if_splits lookup.splits)


lemma init_after: "after (init fuel sr depCalc L initList) = fetchedLoader (fetchUnmetDependencies fuel sr L [])"
  by (auto simp: init_def split: fetched.splits sum.splits prod.splits)

lemma init_externals: "externals (init fuel sr depCalc L initList) = fetchedCalls (fetchUnmetDependencies fuel sr L [])"
  by (auto simp: init_def split: fetched.splits sum.splits prod.splits)

text \<open>Every \<^verbatim>\<open>init\<close> is called with the values of the module's declared dependencies.\<close>

lemma inits_serviceCallback: "inits (trace (serviceCallback x err G)) = inits (trace G)"
  by (cases err) (auto simp: serviceCallback_def inits_append)

lemma initService_declared: "initService L x = (evs, c) \<Longrightarrow> set (inits evs) \<subseteq> declared L"
  by (drule initService_events) (auto simp: declared_def)

lemma eachLoop_declared:
  "set (inits (trace G)) \<subseteq> declared L \<Longrightarrow> eachLoop L ids G = (G', r) \<Longrightarrow>
   set (inits (trace G')) \<subseteq> declared L"
proof (induction ids arbitrary: G)
  case Nil
  then show ?case by simp
next
  case (Cons x ids)
  obtain evs c where isv: "initService L x = (evs, c)" by (cases "initService L x")
  have s1: "set (inits (trace G @ evs)) \<subseteq> declared L"
    using Cons.prems(1) initService_declared[OF isv] by (simp add: inits_append)
  show ?case
  proof (cases c)
    case (Completed err)
    have "set (inits (trace (serviceCallback x err (G\<lparr>trace := trace G @ evs\<rparr>)))) \<subseteq> declared L"
      using s1 by (simp add: inits_serviceCallback)
    from Cons.IH[OF this] Cons.prems(2) isv Completed show ?thesis by simp
  next
    case (Later t err)
    have "set (inits (trace (G\<lparr>trace := trace G @ evs, waiting := waiting G @ [(t, x, err)]\<rparr>)))
            \<subseteq> declared L" using s1 by simp
    from Cons.IH[OF this] Cons.prems(2) isv Later show ?thesis by simp
  next
    case Never
    have "set (inits (trace (G\<lparr>trace := trace G @ evs\<rparr>))) \<subseteq> declared L" using s1 by simp
    from Cons.IH[OF this] Cons.prems(2) isv Never show ?thesis by simp
  next
    case (Raised e)
    with Cons.prems(2) isv s1 show ?thesis by auto
  qed
qed

lemma fold_inits:
  "inits (trace (fold (\<lambda>(t, x, err). serviceCallback x err) ws G)) = inits (trace G)"
  by (induction ws arbitrary: G) (auto simp: inits_serviceCallback)

lemma each_declared: "each L ids = (evs, out) \<Longrightarrow> set (inits evs) \<subseteq> declared L"
proof -
  assume a: "each L ids = (evs, out)"
  let ?G0 = "\<lparr>trace = [], failed = None, completed = 0, waiting = []\<rparr>"
  obtain G r where loop: "eachLoop L ids ?G0 = (G, r)" by (cases "eachLoop L ids ?G0")
  have "set (inits (trace ?G0)) \<subseteq> declared L" by simp
  from eachLoop_declared[OF this loop] have "set (inits (trace G)) \<subseteq> declared L" .
  with a loop show ?thesis
    by (cases r) (auto simp: each_def Let_def fold_inits split: option.splits if_splits)
qed

lemma eachSeries_declared: "eachSeries L gs = (evs, fin) \<Longrightarrow> set (inits evs) \<subseteq> declared L"
proof (induction gs arbitrary: evs fin)
  case Nil
  then show ?case by auto
next
  case (Cons g gs)
  obtain evs1 out where e1: "each L g = (evs1, out)" by (cases "each L g")
  obtain evs2 fin2 where e2: "eachSeries L gs = (evs2, fin2)" by (cases "eachSeries L gs")
  from each_declared[OF e1] Cons.IH[OF e2] Cons.prems e1 e2 show ?case
    by (cases out) (auto simp: inits_append)
qed

lemma init_declared:
  "Init x args \<in> set (events (init fuel sr depCalc L initList)) \<Longrightarrow>
   (x, args) \<in> declared (after (init fuel sr depCalc L initList))"
proof -
  assume a: "Init x args \<in> set (events (init fuel sr depCalc L initList))"
  show ?thesis
  proof (cases "fetchUnmetDependencies fuel sr L []")
    case (Resolved L' cs)
    show ?thesis
    proof (cases "calculateDependencyTree depCalc L' initList")
      case (Inl e)
      with a Resolved show ?thesis by (simp add: init_def)
    next
      case (Inr gs)
      obtain evs fin where es: "eachSeries L' gs = (evs, fin)" by (cases "eachSeries L' gs")
      with a Resolved Inr have "Init x args \<in> set evs" by (simp add: init_def)
      then have "(x, args) \<in> set (inits evs)" by (rule inits_mem)
      with eachSeries_declared[OF es] have "(x, args) \<in> declared L'" by blast
      with Resolved Inr es show ?thesis by (simp add: init_def)
    qed
  next
    case (LoadFailed e L' cs)
    with a show ?thesis by (simp add: init_def)
  next
    case (OutOfFuel L' cs)
    with a show ?thesis by (simp add: init_def)
  qed
qed








text \<open>With one node per group, nodes start and complete in the order of the list.\<close>

lemma starts_append:
  "starts k (xs @ ys) = starts k xs @ starts (k + length (finished xs)) ys"
  by (induction k xs rule: starts.induct) auto

lemma starts_split:
  "(k + length (finished pre), x) \<in> set (starts k (pre @ Init x args # post))"
  by (simp add: starts_append)

lemma each_singleton:
  assumes "each L [x] = (evs, out)"
  shows "(finished evs = [] \<or> finished evs = [x]) \<and>
         (out = Succeeded \<longrightarrow> finished evs = [x]) \<and>
         set (starts k evs) \<subseteq> {(k, x)}"
proof -
  obtain evs0 c where isv: "initService L x = (evs0, c)" by (cases "initService L x")
  from initService_events[OF isv] have "evs0 = [] \<or> (\<exists>args. evs0 = [Init x args])" by auto
  with assms isv show ?thesis
    by (cases c)
       (auto simp: each_def serviceCallback_def Let_def split: option.splits if_splits)
qed

lemma eachSeries_forced:
  "eachSeries L (map (\<lambda>x. [x]) ids) = (evs, fin) \<Longrightarrow>
     prefix (finished evs) ids \<and>
     (\<forall>(j, y) \<in> set (starts k evs). k \<le> j \<and> j - k < length ids \<and> ids ! (j - k) = y)"
proof (induction ids arbitrary: evs fin k)
  case Nil
  then show ?case by auto
next
  case (Cons x ids)
  obtain evs1 out where e1: "each L [x] = (evs1, out)" by (cases "each L [x]")
  note s = each_singleton[OF e1, of k]
  show ?case
  proof (cases out)
    case Succeeded
    obtain evs2 fin2 where e2: "eachSeries L (map (\<lambda>x. [x]) ids) = (evs2, fin2)"
      by (cases "eachSeries L (map (\<lambda>x. [x]) ids)")
    from Cons.prems e1 e2 Succeeded have evs: "evs = evs1 @ evs2" by simp
    from s Succeeded have f1: "finished evs1 = [x]" by simp
    from Cons.IH[OF e2, of "Suc k"] have ih1: "prefix (finished evs2) ids"
      and ih2: "\<forall>(j, y) \<in> set (starts (Suc k) evs2).
                  Suc k \<le> j \<and> j - Suc k < length ids \<and> ids ! (j - Suc k) = y"
      by simp_all
    have "prefix (finished evs) (x # ids)" using evs f1 ih1 by (simp add: finished_append)
    moreover have "\<forall>(j, y) \<in> set (starts k evs).
                     k \<le> j \<and> j - k < length (x # ids) \<and> (x # ids) ! (j - k) = y"
    proof (clarify)
      fix j y assume "(j, y) \<in> set (starts k evs)"
      then consider "(j, y) \<in> set (starts k evs1)" | "(j, y) \<in> set (starts (Suc k) evs2)"
        using evs f1 by (auto simp: starts_append)
      then show "k \<le> j \<and> j - k < length (x # ids) \<and> (x # ids) ! (j - k) = y"
      proof cases
        case 1
        with s show ?thesis by auto
      next
        case 2
        with ih2 have "Suc k \<le> j" "j - Suc k < length ids" "ids ! (j - Suc k) = y" by auto
        then show ?thesis by (auto simp: Suc_diff_le nth_Cons')
      qed
    qed
    ultimately show ?thesis by simp
  next
    case (GroupFailed e)
    with Cons.prems e1 s show ?thesis by auto
  next
    case (GroupThrew e)
    with Cons.prems e1 s show ?thesis by auto
  next
    case GroupPending
    with Cons.prems e1 s show ?thesis by auto
  qed
qed

lemma forced_groups: "calculateDependencyTree depCalc L (Some ids) = Inr (map (\<lambda>x. [x]) ids)"
  by (simp add: calculateDependencyTree_def)

lemma init_forced_events:
  "events (init fuel sr depCalc L (Some ids)) = [] \<or>
   (\<exists>e. events (init fuel sr depCalc L (Some ids)) = [Callback (Some e)]) \<or>
   (\<exists>L' fin. eachSeries L' (map (\<lambda>x. [x]) ids) = (events (init fuel sr depCalc L (Some ids)), fin))"
  by (cases "fetchUnmetDependencies fuel sr L []")
     (auto simp: init_def forced_groups split: prod.splits)

section \<open>What the nodes report\<close>
























lemma nodeErrors_doneEvents: "nodeErrors evs = [e. (x, Some e) \<leftarrow> doneEvents evs]"
  by (induction evs rule: nodeErrors.induct) auto








section \<open>Forced order and sequential execution\<close>

text \<open>A run over singleton groups is the sequential execution \<open>series\<close>.\<close>

lemma each_single_skipped:
  "skipped L x \<Longrightarrow> each L [x] = ([NodeDone x None], Succeeded)"
  by (simp add: each_def initService_def skipped_def serviceCallback_def)

lemma each_single_no_module:
  "\<not> skipped L x \<Longrightarrow> (\<forall>m. js_get (moduleMap L) x \<noteq> Own m) \<Longrightarrow>
   each L [x] = ([], GroupThrew (TypeError ''toLoad.init of undefined''))"
  by (cases "js_get (moduleMap L) x") (simp_all add: each_def initService_def skipped_def)

lemma each_single_no_deps:
  "\<not> skipped L x \<Longrightarrow> js_get (moduleMap L) x = Own m \<Longrightarrow>
   (\<forall>deps. js_get (dependencyMap L) x \<noteq> Own deps) \<Longrightarrow>
   each L [x] = ([], GroupThrew (TypeError ''deps.length of undefined''))"
  by (cases "js_get (dependencyMap L) x") (simp_all add: each_def initService_def skipped_def)

lemma each_single_module:
  assumes "\<not> skipped L x" and "js_get (moduleMap L) x = Own m"
    and "js_get (dependencyMap L) x = Own deps"
  shows "each L [x] =
     (case reported (hasCallback m) (initFn m (map (dependencyValue L) deps)) of
        Some None \<Rightarrow> ([Init x (map (dependencyValue L) deps), NodeDone x None], Succeeded)
      | Some (Some e) \<Rightarrow>
          ([Init x (map (dependencyValue L) deps), NodeDone x (Some e), Callback (Some e)],
           GroupFailed e)
      | None \<Rightarrow> ([Init x (map (dependencyValue L) deps)],
                 case initFn m (map (dependencyValue L) deps) of
                   Throws e \<Rightarrow> GroupThrew e | _ \<Rightarrow> GroupPending))"
proof (cases "hasCallback m")
  case True
  with assms show ?thesis
    by (cases "initFn m (map (dependencyValue L) deps)")
       (auto simp: each_def initService_def skipped_def serviceCallback_def Let_def
             split: option.splits)
next
  case False
  with assms show ?thesis
    by (cases "initFn m (map (dependencyValue L) deps)")
       (auto simp: each_def initService_def skipped_def serviceCallback_def Let_def
             split: option.splits)
qed

lemma eachSeries_series: "eachSeries L (map (\<lambda>x. [x]) ids) = series L ids"
proof (induction ids)
  case Nil
  show ?case by simp
next
  case (Cons x ids)
  show ?case
  proof (cases "skipped L x")
    case True
    with Cons show ?thesis by (simp add: each_single_skipped split: prod.splits)
  next
    case False
    show ?thesis
    proof (cases "js_get (moduleMap L) x")
      case (Own m)
      show ?thesis
      proof (cases "js_get (dependencyMap L) x")
        case (Own deps)
        note e = each_single_module[OF False \<open>js_get (moduleMap L) x = Own m\<close> Own]
        show ?thesis
        proof (cases "reported (hasCallback m) (initFn m (map (dependencyValue L) deps))")
          case None
          with e False Own \<open>js_get (moduleMap L) x = Own m\<close> Cons show ?thesis
            by (cases "initFn m (map (dependencyValue L) deps)") (simp_all add: Let_def)
        next
          case (Some err)
          with e False Own \<open>js_get (moduleMap L) x = Own m\<close> Cons show ?thesis
            by (cases err) (simp_all add: Let_def split: prod.splits)
        qed
      next
        case (Inherited k)
        with False \<open>js_get (moduleMap L) x = Own m\<close> each_single_no_deps[OF False \<open>js_get (moduleMap L) x = Own m\<close>]
        show ?thesis by simp
      next
        case Missing
        with False \<open>js_get (moduleMap L) x = Own m\<close> each_single_no_deps[OF False \<open>js_get (moduleMap L) x = Own m\<close>]
        show ?thesis by simp
      qed
    next
      case (Inherited k)
      with False each_single_no_module[OF False] show ?thesis by simp
    next
      case Missing
      with False each_single_no_module[OF False] show ?thesis by simp
    qed
  qed
qed

lemma series_awaited:
  "series L ids = (evs, fin) \<Longrightarrow> evs = pre @ Init x args # post \<Longrightarrow> awaited L fin x args post"
proof (induction ids arbitrary: evs pre)
  case Nil
  then show ?case by (auto simp: Cons_eq_append_conv)
next
  case (Cons y ids)
  obtain evs' fin' where s': "series L ids = (evs', fin')" by (cases "series L ids")
  show ?case
  proof (cases "skipped L y")
    case True
    with Cons.prems s' have ev: "evs = NodeDone y None # evs'" and f: "fin = fin'" by simp_all
    with Cons.prems(2) obtain pre' where "evs' = pre' @ Init x args # post"
      by (auto simp: Cons_eq_append_conv)
    from Cons.IH[OF s'[unfolded f[symmetric]] this] show ?thesis .
  next
    case False
    show ?thesis
    proof (cases "js_get (moduleMap L) y")
      case (Own m)
      show ?thesis
      proof (cases "js_get (dependencyMap L) y")
        case (Own deps)
        let ?args = "map (dependencyValue L) deps"
        show ?thesis
        proof (cases "reported (hasCallback m) (initFn m ?args)")
          case None
          with False Own \<open>js_get (moduleMap L) y = Own m\<close> Cons.prems(1)
          have ev: "evs = [Init y ?args]"
            and f: "fin = (case initFn m ?args of Throws e \<Rightarrow> Threw e | _ \<Rightarrow> Pending)"
            by (simp_all add: Let_def)
          with Cons.prems(2) have "x = y \<and> args = ?args \<and> post = []"
            by (auto simp: Cons_eq_append_conv)
          with None f \<open>js_get (moduleMap L) y = Own m\<close> show ?thesis by (simp add: awaited_def)
        next
          case (Some err)
          show ?thesis
          proof (cases err)
            case None
            with Some False Own \<open>js_get (moduleMap L) y = Own m\<close> Cons.prems(1) s'
            have ev: "evs = Init y ?args # NodeDone y None # evs'" and f: "fin = fin'"
              by (simp_all add: Let_def)
            with Cons.prems(2) have
              "(x = y \<and> args = ?args \<and> post = NodeDone y None # evs') \<or>
               (\<exists>pre'. evs' = pre' @ Init x args # post)"
              by (auto simp: Cons_eq_append_conv)
            then show ?thesis
            proof
              assume "x = y \<and> args = ?args \<and> post = NodeDone y None # evs'"
              with Some None \<open>js_get (moduleMap L) y = Own m\<close> show ?thesis
                by (simp add: awaited_def)
            next
              assume "\<exists>pre'. evs' = pre' @ Init x args # post"
              then obtain pre' where "evs' = pre' @ Init x args # post" ..
              from Cons.IH[OF s'[unfolded f[symmetric]] this] show ?thesis .
            qed
          next
            case (Some e)
            with \<open>reported (hasCallback m) (initFn m ?args) = Some err\<close> False Own
              \<open>js_get (moduleMap L) y = Own m\<close> Cons.prems(1)
            have ev: "evs = [Init y ?args, NodeDone y (Some e), Callback (Some e)]"
              by (simp add: Let_def)
            with Cons.prems(2) have "x = y \<and> args = ?args \<and> post = [NodeDone y (Some e), Callback (Some e)]"
              by (auto simp: Cons_eq_append_conv)
            with Some \<open>reported (hasCallback m) (initFn m ?args) = Some err\<close>
              \<open>js_get (moduleMap L) y = Own m\<close> show ?thesis by (simp add: awaited_def)
          qed
        qed
      next
        case (Inherited k)
        with False \<open>js_get (moduleMap L) y = Own m\<close> Cons.prems show ?thesis by simp
      next
        case Missing
        with False \<open>js_get (moduleMap L) y = Own m\<close> Cons.prems show ?thesis by simp
      qed
    next
      case (Inherited k)
      with False Cons.prems show ?thesis by simp
    next
      case Missing
      with False Cons.prems show ?thesis by simp
    qed
  qed
qed

lemma series_failure_last:
  "series L ids = (evs, fin) \<Longrightarrow> evs = pre @ NodeDone x (Some e) # post \<Longrightarrow>
   post = [Callback (Some e)] \<and> fin = Failed e"
proof (induction ids arbitrary: evs pre)
  case Nil
  then show ?case by (auto simp: Cons_eq_append_conv)
next
  case (Cons y ids)
  obtain evs' fin' where s': "series L ids = (evs', fin')" by (cases "series L ids")
  show ?case
  proof (cases "skipped L y")
    case True
    with Cons.prems s' have ev: "evs = NodeDone y None # evs'" and f: "fin = fin'" by simp_all
    with Cons.prems(2) obtain pre' where "evs' = pre' @ NodeDone x (Some e) # post"
      by (auto simp: Cons_eq_append_conv)
    from Cons.IH[OF s'[unfolded f[symmetric]] this] show ?thesis .
  next
    case False
    show ?thesis
    proof (cases "js_get (moduleMap L) y")
      case (Own m)
      show ?thesis
      proof (cases "js_get (dependencyMap L) y")
        case (Own deps)
        let ?args = "map (dependencyValue L) deps"
        show ?thesis
        proof (cases "reported (hasCallback m) (initFn m ?args)")
          case None
          with False Own \<open>js_get (moduleMap L) y = Own m\<close> Cons.prems(1)
          have "evs = [Init y ?args]" by (simp add: Let_def)
          with Cons.prems(2) show ?thesis by (auto simp: Cons_eq_append_conv)
        next
          case (Some err)
          show ?thesis
          proof (cases err)
            case None
            with Some False Own \<open>js_get (moduleMap L) y = Own m\<close> Cons.prems(1) s'
            have ev: "evs = Init y ?args # NodeDone y None # evs'" and f: "fin = fin'"
              by (simp_all add: Let_def)
            with Cons.prems(2) obtain pre' where "evs' = pre' @ NodeDone x (Some e) # post"
              by (auto simp: Cons_eq_append_conv)
            from Cons.IH[OF s'[unfolded f[symmetric]] this] show ?thesis .
          next
            case (Some e')
            with \<open>reported (hasCallback m) (initFn m ?args) = Some err\<close> False Own
              \<open>js_get (moduleMap L) y = Own m\<close> Cons.prems(1)
            have "evs = [Init y ?args, NodeDone y (Some e'), Callback (Some e')]" "fin = Failed e'"
              by (simp_all add: Let_def)
            with Cons.prems(2) show ?thesis by (auto simp: Cons_eq_append_conv)
          qed
        qed
      next
        case (Inherited k)
        with False \<open>js_get (moduleMap L) y = Own m\<close> Cons.prems show ?thesis by simp
      next
        case Missing
        with False \<open>js_get (moduleMap L) y = Own m\<close> Cons.prems show ?thesis by simp
      qed
    next
      case (Inherited k)
      with False Cons.prems show ?thesis by simp
    next
      case Missing
      with False Cons.prems show ?thesis by simp
    qed
  qed
qed

lemma series_done_all:
  "series L ids = (evs, Done) \<Longrightarrow>
   finished evs = ids \<and> map fst (inits evs) = filter (\<lambda>x. \<not> skipped L x) ids"
proof (induction ids arbitrary: evs)
  case Nil
  then show ?case by auto
next
  case (Cons y ids)
  obtain evs' fin' where s': "series L ids = (evs', fin')" by (cases "series L ids")
  from Cons.prems s' have "fin' = Done \<and>
      (if skipped L y then evs = NodeDone y None # evs'
       else \<exists>args. evs = Init y args # NodeDone y None # evs')"
    by (auto simp: Let_def split: if_splits lookup.splits option.splits init_result.splits)
  with Cons.IH[of evs'] s' show ?case by (auto split: if_splits)
qed

lemma series_all_succeed: "list_all (succeeds L) ids \<Longrightarrow> snd (series L ids) = Done"
proof (induction ids)
  case Nil
  show ?case by simp
next
  case (Cons y ids)
  then have y: "succeeds L y" and ih: "snd (series L ids) = Done" by simp_all
  obtain evs' fin' where s': "series L ids = (evs', fin')" by (cases "series L ids")
  with ih have "fin' = Done" by simp
  with y s' show ?case
    by (auto simp: succeeds_def Let_def split: lookup.splits)
qed

lemma init_forced_series:
  "fetchUnmetDependencies fuel sr L [] = Resolved L' cs \<Longrightarrow>
   series L' ids = (events (init fuel sr depCalc L (Some ids)), ending (init fuel sr depCalc L (Some ids))) \<and>
   after (init fuel sr depCalc L (Some ids)) = L'"
  by (simp add: init_def forced_groups eachSeries_series[symmetric] split: prod.splits)

lemma init_forced_unresolved:
  "\<forall>L' cs. fetchUnmetDependencies fuel sr L [] \<noteq> Resolved L' cs \<Longrightarrow>
   ending (init fuel sr depCalc L initList) \<noteq> Done \<and>
   (events (init fuel sr depCalc L initList) = [] \<or>
    (\<exists>e. events (init fuel sr depCalc L initList) = [Callback (Some e)]))"
  by (cases "fetchUnmetDependencies fuel sr L []") (simp_all add: init_def)

lemma init_forced_awaited:
  assumes "events (init fuel sr depCalc L (Some ids)) = pre @ Init x args # post"
  shows "awaited (after (init fuel sr depCalc L (Some ids)))
           (ending (init fuel sr depCalc L (Some ids))) x args post"
proof (cases "\<exists>L' cs. fetchUnmetDependencies fuel sr L [] = Resolved L' cs")
  case True
  then obtain L' cs where "fetchUnmetDependencies fuel sr L [] = Resolved L' cs" by blast
  from init_forced_series[OF this, of ids depCalc] assms show ?thesis
    by (auto dest: series_awaited)
next
  case False
  with init_forced_unresolved[of fuel sr L depCalc "Some ids"] assms show ?thesis
    by (auto simp: Cons_eq_append_conv append_eq_Cons_conv)
qed

lemma init_forced_failure_last:
  assumes "events (init fuel sr depCalc L (Some ids)) = pre @ NodeDone x (Some e) # post"
  shows "post = [Callback (Some e)] \<and> ending (init fuel sr depCalc L (Some ids)) = Failed e"
proof (cases "\<exists>L' cs. fetchUnmetDependencies fuel sr L [] = Resolved L' cs")
  case True
  then obtain L' cs where "fetchUnmetDependencies fuel sr L [] = Resolved L' cs" by blast
  from init_forced_series[OF this, of ids depCalc] assms show ?thesis
    by (auto dest: series_failure_last)
next
  case False
  with init_forced_unresolved[of fuel sr L depCalc "Some ids"] assms show ?thesis
    by (auto simp: Cons_eq_append_conv append_eq_Cons_conv)
qed

lemma init_forced_done:
  assumes "ending (init fuel sr depCalc L (Some ids)) = Done"
  shows "finished (events (init fuel sr depCalc L (Some ids))) = ids \<and>
         map fst (inits (events (init fuel sr depCalc L (Some ids)))) =
           filter (\<lambda>x. \<not> skipped (after (init fuel sr depCalc L (Some ids))) x) ids"
proof (cases "\<exists>L' cs. fetchUnmetDependencies fuel sr L [] = Resolved L' cs")
  case True
  then obtain L' cs where "fetchUnmetDependencies fuel sr L [] = Resolved L' cs" by blast
  from init_forced_series[OF this, of ids depCalc] assms
  have "series L' ids = (events (init fuel sr depCalc L (Some ids)), Done)"
    and "after (init fuel sr depCalc L (Some ids)) = L'" by simp_all
  with series_done_all[of L' ids] show ?thesis by simp
next
  case False
  with init_forced_unresolved[of fuel sr L depCalc "Some ids"] assms show ?thesis by simp
qed

lemma init_forced_all_succeed:
  assumes "fetchUnmetDependencies fuel sr L [] = Resolved L' cs" and "list_all (succeeds L') ids"
  shows "ending (init fuel sr depCalc L (Some ids)) = Done \<and>
         finished (events (init fuel sr depCalc L (Some ids))) = ids"
proof -
  from init_forced_series[OF assms(1), of ids depCalc] series_all_succeed[OF assms(2)]
  have "ending (init fuel sr depCalc L (Some ids)) = Done"
    by (metis snd_conv)
  with init_forced_done[OF this] show ?thesis by simp
qed

section \<open>The claims on \<^verbatim>\<open>init\<close>\<close>

lemma dependencyValue_kept:
  assumes "js_get (moduleMap L') d = js_get (moduleMap L) d"
    and "js_get (injectedMap L') d = Own v"
  shows "dependencyValue L' d =
           (case map_of (moduleMap L) d of
              Some m \<Rightarrow> JObj (oid m)
            | None \<Rightarrow> if d \<in> set objectPrototype then JBuiltin d else v)"
  using assms by (auto simp: dependencyValue_def js_get_def split: option.splits)

subsection \<open>Claim C1\<close>

text \<open>
  Claim C1, as stated, fails: where a service module is registered under the same id as
  an injected object, the module wins. Here \<^verbatim>\<open>cache\<close> is both a loaded service (the object
  2) and an injected object (the object 7), and \<^verbatim>\<open>api\<close>, which declares \<^verbatim>\<open>cache\<close>, is
  initialized with the module, not with the injected object.
\<close>

theorem C1_collision_counterexample:
  "js_get (injectedMap collidingCache) ''cache'' = Own (JObj 7) \<and>
   js_get (dependencyMap collidingCache) ''api'' = Own [''cache''] \<and>
   events (init 1 noExternal registrationOrder collidingCache (Some [''api''])) =
     [Init ''api'' [JObj 2], NodeDone ''api'' None, Callback None]"
  by code_simp

text \<open>
  Claim C1, amended: for every dependency identifier whose injected value is truthy, the
  resolver never attempts an external load; and every module that declares it as a
  dependency receives the injected object as the corresponding initialization argument,
  provided no module is registered under that identifier and the identifier is not the
  name of a property inherited from \<^verbatim>\<open>Object.prototype\<close> (such as \<^verbatim>\<open>constructor\<close>). The
  argument is \<^verbatim>\<open>moduleMap[dep] || injectedMap[dep]\<close>: a module registered under the same
  identifier takes precedence, and where there is none an inherited property of the module
  map does.
\<close>

theorem C1_injected_dependency:
  assumes "js_get (injectedMap L) d = Own v" and "truthy v"
  shows "(\<forall>p. Require d p \<notin> set (externals (init fuel sr depCalc L initList))) \<and>
         (\<forall>x args. Init x args \<in> set (events (init fuel sr depCalc L initList)) \<longrightarrow>
            (\<exists>deps. js_get (dependencyMap (after (init fuel sr depCalc L initList))) x = Own deps \<and>
                    length args = length deps \<and>
                    (\<forall>i < length deps. deps ! i = d \<longrightarrow>
                       (map_of (moduleMap L) d = None \<and> d \<notin> set objectPrototype \<longrightarrow> args ! i = v) \<and>
                       (\<forall>m. map_of (moduleMap L) d = Some m \<longrightarrow> args ! i = JObj (oid m)) \<and>
                       (map_of (moduleMap L) d = None \<and> d \<in> set objectPrototype \<longrightarrow>
                          args ! i = JBuiltin d))))"
proof -
  let ?r = "init fuel sr depCalc L initList"
  let ?res = "fetchUnmetDependencies fuel sr L []"
  have t: "truthy (js_value (js_get (injectedMap L) d))" using assms by simp
  have k: "keeps d \<lparr>ldr = L, calls = [], runAgain = False\<rparr>
             \<lparr>ldr = fetchedLoader ?res, calls = fetchedCalls ?res, runAgain = False\<rparr>"
    using t by (rule fetch_keeps)
  have no_load: "\<forall>p. Require d p \<notin> set (externals ?r)"
  proof (intro allI notI)
    fix p assume "Require d p \<in> set (externals ?r)"
    then have "d \<in> set (requiredIds (fetchedCalls ?res))"
      by (simp add: init_externals requiredIds_mem)
    with k show False by (simp add: keeps_def)
  qed
  from k assms(1) have m': "js_get (moduleMap (after ?r)) d = js_get (moduleMap L) d"
    and i': "js_get (injectedMap (after ?r)) d = Own v"
    by (simp_all add: keeps_def init_after)
  note dv = dependencyValue_kept[OF m' i']
  have args: "\<exists>deps. js_get (dependencyMap (after ?r)) x = Own deps \<and> length args = length deps \<and>
                (\<forall>i < length deps. deps ! i = d \<longrightarrow>
                   (map_of (moduleMap L) d = None \<and> d \<notin> set objectPrototype \<longrightarrow> args ! i = v) \<and>
                   (\<forall>m. map_of (moduleMap L) d = Some m \<longrightarrow> args ! i = JObj (oid m)) \<and>
                   (map_of (moduleMap L) d = None \<and> d \<in> set objectPrototype \<longrightarrow>
                      args ! i = JBuiltin d))"
    if ev: "Init x args \<in> set (events ?r)" for x args
  proof -
    from init_declared[OF ev] obtain deps where
      d: "js_get (dependencyMap (after ?r)) x = Own deps"
      and a: "args = map (dependencyValue (after ?r)) deps"
      by (auto simp: declared_def)
    have "args ! i = dependencyValue (after ?r) d" if "i < length deps" "deps ! i = d" for i
      using that a by simp
    with d a dv show ?thesis by auto
  qed
  from no_load args show ?thesis by blast
qed

text \<open>Witness for C1: \<^verbatim>\<open>cache\<close> is injected, is not a module and is no inherited property;
  \<^verbatim>\<open>api\<close> declares it, no load of \<^verbatim>\<open>cache\<close> is attempted, and \<^verbatim>\<open>api\<close> is initialized with the
  injected object. An object injected as \<^verbatim>\<open>constructor\<close> is not loaded either, but \<^verbatim>\<open>factory\<close>,
  which declares it, is initialized with the inherited \<^verbatim>\<open>Object\<close> function.\<close>

theorem C1_injected_dependency_witness:
  "js_get (injectedMap injectedCache) ''cache'' = Own (JObj 7) \<and> truthy (JObj 7) \<and>
   map_of (moduleMap injectedCache) ''cache'' = None \<and> ''cache'' \<notin> set objectPrototype \<and>
   Require ''cache'' ''api'' \<notin> set (externals (init 1 noExternal registrationOrder injectedCache (Some [''api'']))) \<and>
   js_get (dependencyMap (after (init 1 noExternal registrationOrder injectedCache (Some [''api''])))) ''api'' =
     Own [''cache''] \<and>
   Init ''api'' [JObj 7] \<in> set (events (init 1 noExternal registrationOrder injectedCache (Some [''api'']))) \<and>
   js_get (injectedMap injectedConstructor) ''constructor'' = Own (JObj 7) \<and>
   map_of (moduleMap injectedConstructor) ''constructor'' = None \<and>
   ''constructor'' \<in> set objectPrototype \<and>
   Require ''constructor'' ''factory'' \<notin>
     set (externals (init 1 noExternal registrationOrder injectedConstructor (Some [''factory'']))) \<and>
   events (init 1 noExternal registrationOrder injectedConstructor (Some [''factory''])) =
     [Init ''factory'' [JBuiltin ''constructor''], NodeDone ''factory'' None, Callback None]"
proof -
  let ?r = "init 1 noExternal registrationOrder injectedCache (Some [''api''])"
  let ?q = "init 1 noExternal registrationOrder injectedConstructor (Some [''factory''])"
  have h1: "js_get (injectedMap injectedCache) ''cache'' = Own (JObj 7)" by code_simp
  have h2: "truthy (JObj 7)" by simp
  have "case map_of (moduleMap injectedCache) ''cache'' of None \<Rightarrow> True | Some m \<Rightarrow> False"
    by code_simp
  then have h3: "map_of (moduleMap injectedCache) ''cache'' = None" by (simp split: option.splits)
  have h4: "''cache'' \<notin> set objectPrototype" by code_simp
  have ev: "Init ''api'' [JObj 7] \<in> set (events ?r)" by code_simp
  have dp: "js_get (dependencyMap (after ?r)) ''api'' = Own [''cache'']" by code_simp
  from C1_injected_dependency[OF h1 h2, of 1 noExternal registrationOrder "Some [''api'']"]
  have nl: "Require ''cache'' ''api'' \<notin> set (externals ?r)" by blast
  have g1: "js_get (injectedMap injectedConstructor) ''constructor'' = Own (JObj 7)" by code_simp
  have "case map_of (moduleMap injectedConstructor) ''constructor'' of None \<Rightarrow> True | Some m \<Rightarrow> False"
    by code_simp
  then have g3: "map_of (moduleMap injectedConstructor) ''constructor'' = None"
    by (simp split: option.splits)
  have g4: "''constructor'' \<in> set objectPrototype" by code_simp
  from C1_injected_dependency[OF g1 h2, of 1 noExternal registrationOrder "Some [''factory'']"]
  have gl: "Require ''constructor'' ''factory'' \<notin> set (externals ?q)" by blast
  have gv: "events ?q =
     [Init ''factory'' [JBuiltin ''constructor''], NodeDone ''factory'' None, Callback None]"
    by code_simp
  from h1 h2 h3 h4 ev dp nl g1 g3 g4 gl gv show ?thesis by simp
qed

subsection \<open>Claim C4\<close>

text \<open>
  Claim C4: whenever loading an external dependency fails, \<^verbatim>\<open>init\<close> fails with an error
  that names the missing dependency and the module that required it; the error is handed
  to the callback of \<^verbatim>\<open>init\<close>, which is all that happens: no group is built or executed.
\<close>

theorem C4_load_failure_reported:
  assumes "Require depId ident \<in> set (externals (init fuel sr depCalc L initList))"
    and "sr depId ident = Inl msg"
  shows "events (init fuel sr depCalc L initList) =
           [Callback (Some (Error (''Error loading dependency '' @ depId @ '' for '' @ ident
                                     @ '': '' @ msg)))] \<and>
         ending (init fuel sr depCalc L initList) =
           Failed (Error (''Error loading dependency '' @ depId @ '' for '' @ ident
                            @ '': '' @ msg))"
proof (cases "fetchUnmetDependencies fuel sr L []")
  case (Resolved L' cs)
  with fetch_calls[of sr "[]" fuel L] have ok: "list_all (succeeded sr) cs" by simp
  from Resolved assms(1) have "Require depId ident \<in> set cs"
    by (auto simp: init_def split: sum.splits prod.splits)
  with ok assms(2) show ?thesis by (blast dest: succeeded_no_failure)
next
  case (OutOfFuel L' cs)
  with fetch_calls[of sr "[]" fuel L] have ok: "list_all (succeeded sr) cs" by simp
  from OutOfFuel assms(1) have "Require depId ident \<in> set cs" by (simp add: init_def)
  with ok assms(2) show ?thesis by (blast dest: succeeded_no_failure)
next
  case (LoadFailed e L' cs)
  with fetch_calls[of sr "[]" fuel L] have f: "failedAt sr e cs" by simp
  from LoadFailed assms(1) have "Require depId ident \<in> set cs" by (simp add: init_def)
  from f this assms(2) have "e = loadError depId ident msg" by (rule failedAt_unique)
  with LoadFailed show ?thesis by (simp add: init_def loadError_def)
qed

text \<open>Witness for C4: \<^verbatim>\<open>api\<close> declares \<^verbatim>\<open>cache\<close>, which nothing provides and the external
  loader cannot find.\<close>

theorem C4_load_failure_reported_witness:
  "Require ''cache'' ''api'' \<in> set (externals (init 1 noExternal registrationOrder apiOnly (Some [''api'']))) \<and>
   noExternal ''cache'' ''api'' = Inl ''Cannot find module cache'' \<and>
   events (init 1 noExternal registrationOrder apiOnly (Some [''api''])) =
     [Callback (Some (Error ''Error loading dependency cache for api: Cannot find module cache''))]"
proof -
  have h1: "Require ''cache'' ''api'' \<in>
              set (externals (init 1 noExternal registrationOrder apiOnly (Some [''api''])))"
    by code_simp
  have h2: "noExternal ''cache'' ''api'' = Inl ''Cannot find module cache''"
    by (simp add: noExternal_def)
  from C4_load_failure_reported[OF h1 h2] h1 h2 show ?thesis by simp
qed

subsection \<open>Claim C2\<close>




subsection \<open>Claim C3\<close>

text \<open>
  Claim C3: with a forced order, each listed identifier is a group of its own, whatever
  the dependency calculator and the declared dependencies are (the calculator is not
  consulted), and the groups are executed strictly in the given sequence: the nodes
  complete in the order of the list, and a node is started only when exactly the nodes
  before it in the list have completed. A started node is waited for: the next event
  after its start is its own completion, with what its \<^verbatim>\<open>init\<close> reported; when its \<^verbatim>\<open>init\<close>
  reports nothing, nothing follows and the run stays pending, or ends with the exception
  the \<^verbatim>\<open>init\<close> threw. A node that completes with an error is followed by the callback of
  \<^verbatim>\<open>init\<close> alone. No identifier is dropped: a run that ends without an error has completed
  exactly the listed identifiers, in their order, and started those that are not skipped;
  and when every listed identifier is skipped or reports success, the run ends without an
  error.
\<close>

theorem C3_forced_order:
  "calculateDependencyTree depCalc L (Some ids) = Inr (map (\<lambda>x. [x]) ids) \<and>
   init fuel sr depCalc L (Some ids) = init fuel sr depCalc' L (Some ids) \<and>
   prefix (finished (events (init fuel sr depCalc L (Some ids)))) ids \<and>
   (\<forall>pre x args post.
      events (init fuel sr depCalc L (Some ids)) = pre @ Init x args # post \<longrightarrow>
      length (finished pre) < length ids \<and> ids ! length (finished pre) = x) \<and>
   (\<forall>pre x args post.
      events (init fuel sr depCalc L (Some ids)) = pre @ Init x args # post \<longrightarrow>
      (\<exists>m. js_get (moduleMap (after (init fuel sr depCalc L (Some ids)))) x = Own m \<and>
         (case reported (hasCallback m) (initFn m args) of
            Some err \<Rightarrow> (\<exists>post'. post = NodeDone x err # post')
          | None \<Rightarrow> post = [] \<and>
                    ending (init fuel sr depCalc L (Some ids)) =
                      (case initFn m args of Throws e \<Rightarrow> Threw e | _ \<Rightarrow> Pending)))) \<and>
   (\<forall>pre x e post.
      events (init fuel sr depCalc L (Some ids)) = pre @ NodeDone x (Some e) # post \<longrightarrow>
      post = [Callback (Some e)] \<and> ending (init fuel sr depCalc L (Some ids)) = Failed e) \<and>
   (ending (init fuel sr depCalc L (Some ids)) = Done \<longrightarrow>
      finished (events (init fuel sr depCalc L (Some ids))) = ids \<and>
      map fst (inits (events (init fuel sr depCalc L (Some ids)))) =
        filter (\<lambda>x. \<not> skipped (after (init fuel sr depCalc L (Some ids))) x) ids) \<and>
   (\<forall>L' cs. fetchUnmetDependencies fuel sr L [] = Resolved L' cs \<and> list_all (succeeds L') ids \<longrightarrow>
      ending (init fuel sr depCalc L (Some ids)) = Done \<and>
      finished (events (init fuel sr depCalc L (Some ids))) = ids)"
proof -
  let ?r = "init fuel sr depCalc L (Some ids)"
  let ?evs = "events ?r"
  have order: "prefix (finished ?evs) ids \<and>
     (\<forall>(j, y) \<in> set (starts 0 ?evs). j < length ids \<and> ids ! j = y)"
    using init_forced_events[of fuel sr depCalc L ids]
  proof (elim disjE exE)
    fix L' fin assume "eachSeries L' (map (\<lambda>x. [x]) ids) = (?evs, fin)"
    from eachSeries_forced[OF this, of 0] show ?thesis by auto
  qed auto
  have a: "calculateDependencyTree depCalc L (Some ids) = Inr (map (\<lambda>x. [x]) ids)"
    by (rule forced_groups)
  have b: "?r = init fuel sr depCalc' L (Some ids)"
    by (cases "fetchUnmetDependencies fuel sr L []") (simp_all add: init_def forced_groups)
  have c: "prefix (finished ?evs) ids" using order by simp
  have d: "length (finished pre) < length ids \<and> ids ! length (finished pre) = x"
    if "?evs = pre @ Init x args # post" for pre x args post
  proof -
    have "(0 + length (finished pre), x) \<in> set (starts 0 (pre @ Init x args # post))"
      by (rule starts_split)
    with that order show ?thesis by auto
  qed
  have e: "\<exists>m. js_get (moduleMap (after ?r)) x = Own m \<and>
         (case reported (hasCallback m) (initFn m args) of
            Some err \<Rightarrow> (\<exists>post'. post = NodeDone x err # post')
          | None \<Rightarrow> post = [] \<and>
                    ending ?r = (case initFn m args of Throws e \<Rightarrow> Threw e | _ \<Rightarrow> Pending))"
    if "?evs = pre @ Init x args # post" for pre x args post
    using init_forced_awaited[OF that] by (simp add: awaited_def)
  have f: "post = [Callback (Some e)] \<and> ending ?r = Failed e"
    if "?evs = pre @ NodeDone x (Some e) # post" for pre x e post
    using that by (rule init_forced_failure_last)
  have g: "finished ?evs = ids \<and>
      map fst (inits ?evs) = filter (\<lambda>x. \<not> skipped (after ?r) x) ids"
    if "ending ?r = Done"
    using that by (rule init_forced_done)
  have h: "ending ?r = Done \<and> finished ?evs = ids"
    if "fetchUnmetDependencies fuel sr L [] = Resolved L' cs \<and> list_all (succeeds L') ids" for L' cs
    using init_forced_all_succeed[of fuel sr L L' cs ids depCalc] that by blast
  show ?thesis
    apply (intro conjI allI impI)
    subgoal by (rule a)
    subgoal by (rule b)
    subgoal by (rule c)
    subgoal for pre x args post using d[of pre x args post] by blast
    subgoal for pre x args post using d[of pre x args post] by blast
    subgoal for pre x args post using e[of pre x args post] by blast
    subgoal for pre x e post using f[of pre x e post] by blast
    subgoal for pre x e post using f[of pre x e post] by blast
    subgoal using g by blast
    subgoal using g by blast
    subgoal for L' cs using h[of L' cs] by blast
    subgoal for L' cs using h[of L' cs] by blast
    done
qed

text \<open>Witness for C3: \<^verbatim>\<open>api\<close> declares \<^verbatim>\<open>cache\<close>, whose \<^verbatim>\<open>init\<close> calls back at a later tick,
  and the forced order \<^verbatim>\<open>["api", "cache"]\<close> still runs \<^verbatim>\<open>api\<close> first: \<^verbatim>\<open>cache\<close> is started after
  one node has completed, is the second of the list, and both complete. With the forced
  order \<^verbatim>\<open>["hang", "cache"]\<close>, where the \<^verbatim>\<open>init\<close> of \<^verbatim>\<open>hang\<close> never calls back, \<^verbatim>\<open>cache\<close> is never
  started and the run stays pending.\<close>

theorem C3_forced_order_witness:
  "events (init 1 noExternal registrationOrder slowCacheAndApi (Some [''api'', ''cache''])) =
     [Init ''api'' [JObj 5], NodeDone ''api'' None] @
       Init ''cache'' [] # [NodeDone ''cache'' None, Callback None] \<and>
   length (finished [Init ''api'' [JObj 5], NodeDone ''api'' None]) < length [''api'', ''cache''] \<and>
   [''api'', ''cache''] ! length (finished [Init ''api'' [JObj 5], NodeDone ''api'' None]) = ''cache'' \<and>
   ending (init 1 noExternal registrationOrder slowCacheAndApi (Some [''api'', ''cache''])) = Done \<and>
   finished (events (init 1 noExternal registrationOrder slowCacheAndApi (Some [''api'', ''cache'']))) =
     [''api'', ''cache''] \<and>
   (case js_get (moduleMap (after (init 1 noExternal registrationOrder hangingAndCache
                                      (Some [''hang'', ''cache''])))) ''hang'' of
      Own m \<Rightarrow> hasCallback m \<and> initFn m [] = Returns
    | Inherited k \<Rightarrow> False
    | Missing \<Rightarrow> False) \<and>
   events (init 1 noExternal registrationOrder hangingAndCache (Some [''hang'', ''cache''])) =
     [] @ Init ''hang'' [] # [] \<and>
   ending (init 1 noExternal registrationOrder hangingAndCache (Some [''hang'', ''cache''])) = Pending"
proof -
  let ?a = "init 1 noExternal registrationOrder slowCacheAndApi (Some [''api'', ''cache''])"
  let ?b = "init 1 noExternal registrationOrder hangingAndCache (Some [''hang'', ''cache''])"
  note ia = C3_forced_order[where depCalc = registrationOrder and L = slowCacheAndApi
      and ids = "[''api'', ''cache'']" and fuel = 1 and sr = noExternal]
  note ib = C3_forced_order[where depCalc = registrationOrder and L = hangingAndCache
      and ids = "[''hang'', ''cache'']" and fuel = 1 and sr = noExternal]
  have ev: "events ?a = [Init ''api'' [JObj 5], NodeDone ''api'' None] @
       Init ''cache'' [] # [NodeDone ''cache'' None, Callback None]"
    by code_simp
  note pos = ia[THEN conjunct2, THEN conjunct2, THEN conjunct2, THEN conjunct1, rule_format, OF ev]
  have en: "ending ?a = Done" by code_simp
  note fi = ia[THEN conjunct2, THEN conjunct2, THEN conjunct2, THEN conjunct2, THEN conjunct2,
      THEN conjunct2, THEN conjunct1, rule_format, OF en, THEN conjunct1]
  have md: "case js_get (moduleMap (after ?b)) ''hang'' of
      Own m \<Rightarrow> hasCallback m \<and> initFn m [] = Returns
    | Inherited k \<Rightarrow> False
    | Missing \<Rightarrow> False" by code_simp
  have evb: "events ?b = [] @ Init ''hang'' [] # []" by code_simp
  note waits = ib[THEN conjunct2, THEN conjunct2, THEN conjunct2, THEN conjunct2,
      THEN conjunct1, rule_format, OF evb]
  from waits obtain m where
    m: "js_get (moduleMap (after ?b)) ''hang'' = Own m" and
    w: "case reported (hasCallback m) (initFn m []) of
            Some err \<Rightarrow> (\<exists>post'. [] = NodeDone ''hang'' err # post')
          | None \<Rightarrow> [] = ([] :: event list) \<and>
                    ending ?b = (case initFn m [] of Throws e \<Rightarrow> Threw e | _ \<Rightarrow> Pending)"
    by blast
  from md m have "hasCallback m" "initFn m [] = Returns" by simp_all
  with w have pb: "ending ?b = Pending" by simp
  from ev pos en fi md evb pb show ?thesis by simp
qed

subsection \<open>Claim C6\<close>

text \<open>An identifier that is in none of the maps stops a forced run with an exception, before
  anything is started and without the callback being invoked.\<close>

lemma forced_unregistered_first:
  assumes "fetchUnmetDependencies fuel sr L [] = Resolved L' cs"
    and "js_get (injectedMap L') x = Missing"
    and "js_get (consumerMap L') x = Missing"
    and "js_get (moduleMap L') x = Missing"
  shows "events (init fuel sr depCalc L (Some (x # xs))) = [] \<and>
         ending (init fuel sr depCalc L (Some (x # xs))) = Threw (TypeError ''toLoad.init of undefined'')"
  using assms by (simp add: init_def forced_groups each_def initService_def)

text \<open>
  Claim C6 says that a forced order with an identifier that is not registered makes
  \<^verbatim>\<open>init\<close> report an error through its callback. The code does not: for the fresh loader
  and the forced order \<^verbatim>\<open>["nope"]\<close>, reading \<^verbatim>\<open>init\<close> of the missing module raises a
  \<^verbatim>\<open>TypeError\<close> that escapes from \<^verbatim>\<open>init\<close>, and the callback is never invoked.
\<close>

theorem C6_unregistered_forced_id_throws:
  "events (init 1 noExternal registrationOrder createLoader (Some [''nope''])) = [] \<and>
   ending (init 1 noExternal registrationOrder createLoader (Some [''nope''])) =
     Threw (TypeError ''toLoad.init of undefined'') \<and>
   callbacks (events (init 1 noExternal registrationOrder createLoader (Some [''nope'']))) = []"
  by code_simp

end
